theory Spec2Isabelle
  imports Complex_Main "HOL-Library.Multiset" "HOL-Library.Word" "HOL-Library.Infinite_Set"
    "HOL-Library.AList"
begin

section \<open>JavaScript values used by the extension\<close>

text \<open>
  A JavaScript number is a double. The model keeps the three non-finite values apart and
  takes a finite double as the rational it denotes; rounding of doubles is not modelled.
  \<open>JSON.parse\<close> can return \<open>Infinity\<close> (for \<open>1e999\<close>), so the non-finite values are
  part of the type of parsed numbers.
\<close>

datatype number = Fin rat | PInf | NInf | NaN

text \<open>\<open>x * c\<close> and \<open>x / c\<close> for a positive finite constant \<open>c\<close> (the source only
  multiplies by \<open>1000\<close> and divides by \<open>60 * 60 * 1000\<close>).\<close>

fun num_times :: "number \<Rightarrow> rat \<Rightarrow> number" where
  "num_times (Fin x) c = Fin (x * c)"
| "num_times PInf c = PInf"
| "num_times NInf c = NInf"
| "num_times NaN c = NaN"

fun num_divide :: "number \<Rightarrow> rat \<Rightarrow> number" where
  "num_divide (Fin x) c = Fin (x / c)"
| "num_divide PInf c = PInf"
| "num_divide NInf c = NInf"
| "num_divide NaN c = NaN"

fun num_minus :: "number \<Rightarrow> number \<Rightarrow> number" where
  "num_minus (Fin x) (Fin y) = Fin (x - y)"
| "num_minus NaN _ = NaN"
| "num_minus _ NaN = NaN"
| "num_minus PInf PInf = NaN"
| "num_minus NInf NInf = NaN"
| "num_minus PInf _ = PInf"
| "num_minus NInf _ = NInf"
| "num_minus (Fin x) PInf = NInf"
| "num_minus (Fin x) NInf = PInf"

text \<open>\<open>a < b\<close> on numbers: false as soon as one side is \<open>NaN\<close>.\<close>

fun num_less :: "number \<Rightarrow> number \<Rightarrow> bool" where
  "num_less NaN _ = False"
| "num_less _ NaN = False"
| "num_less (Fin x) (Fin y) = (x < y)"
| "num_less NInf NInf = False"
| "num_less NInf _ = True"
| "num_less _ NInf = False"
| "num_less PInf _ = False"
| "num_less _ PInf = True"

definition num_greater :: "number \<Rightarrow> number \<Rightarrow> bool" where
  "num_greater a b = num_less b a"

definition isNaN :: "number \<Rightarrow> bool" where
  "isNaN x = (x = NaN)"

text \<open>The values \<open>JSON.parse\<close> returns. An object is its list of members in order; a
  property is read with the first member of that name (a parsed object has no two).\<close>

datatype json =
    JNull
  | JBool bool
  | JNumber number
  | JString string
  | JArray "json list"
  | JObject "(string \<times> json) list"

text \<open>\<open>!v\<close> for a parsed value.\<close>

fun falsy :: "json \<Rightarrow> bool" where
  "falsy JNull = True"
| "falsy (JBool b) = (\<not> b)"
| "falsy (JNumber n) = (n = Fin 0 \<or> n = NaN)"
| "falsy (JString s) = (s = [])"
| "falsy (JArray _) = False"
| "falsy (JObject _) = False"

text \<open>\<open>v.name\<close> for a parsed value that is not null: \<open>None\<close> stands for \<open>undefined\<close>.
  Only objects carry the claims the extension reads.\<close>

fun getProp :: "json \<Rightarrow> string \<Rightarrow> json option" where
  "getProp (JObject kvs) k = map_of kvs k"
| "getProp _ k = None"

text \<open>\<open>typeof v === "number"\<close> for a property read.\<close>

fun typeof_number :: "json option \<Rightarrow> bool" where
  "typeof_number (Some (JNumber n)) = True"
| "typeof_number _ = False"

subsection \<open>Dates\<close>

text \<open>A \<open>Date\<close> holds a time value: a whole number of milliseconds since the epoch,
  at most \<open>8.64e15\<close> in absolute value, or \<open>NaN\<close> (an invalid date).\<close>

datatype Date = Date int | Invalid_Date

definition getTime :: "Date \<Rightarrow> number" where
  "getTime d = (case d of Date t \<Rightarrow> Fin (of_int t) | Invalid_Date \<Rightarrow> NaN)"

definition trunc :: "rat \<Rightarrow> int" where
  "trunc x = (if 0 \<le> x then \<lfloor>x\<rfloor> else \<lceil>x\<rceil>)"

text \<open>\<open>new Date(n)\<close> for a number \<open>n\<close>: the time value is \<open>TimeClip(n)\<close>.\<close>

definition new_Date :: "number \<Rightarrow> Date" where
  "new_Date n =
     (case n of
        Fin x \<Rightarrow> if \<bar>x\<bar> > 8640000000000000 then Invalid_Date else Date (trunc x)
      | _ \<Rightarrow> Invalid_Date)"

section \<open>JWTUtils: expiry (utils/jwt.ts)\<close>

definition getExpiryDate :: "json \<Rightarrow> Date option" where
  "getExpiryDate payload =
     (if falsy payload \<or> \<not> typeof_number (getProp payload ''exp'') then None
      else case getProp payload ''exp'' of
             Some (JNumber e) \<Rightarrow>
               (let expiryDate = new_Date (num_times e 1000)
                in if isNaN (getTime expiryDate) then None else Some expiryDate)
           | _ \<Rightarrow> None)"

text \<open>\<open>Date.now()\<close> is the extra argument \<open>now\<close>, in milliseconds.\<close>

definition isTokenExpired :: "int \<Rightarrow> json \<Rightarrow> bool" where
  "isTokenExpired now payload =
     (case getExpiryDate payload of
        None \<Rightarrow> False
      | Some expiryDate \<Rightarrow> num_less (getTime expiryDate) (Fin (of_int now)))"

section \<open>JWTUtils: decoding (utils/jwt.ts)\<close>

text \<open>
  A token is a string of code units below 256, as a header value carries it.
  \<open>s.split(".")\<close>: the pieces between the dots; a string without a dot is one piece, and
  an empty piece stands wherever two dots meet or a dot ends the string.
\<close>

fun js_split :: "char \<Rightarrow> string \<Rightarrow> string list" where
  "js_split c [] = [[]]"
| "js_split c (x # xs) =
     (if x = c then [] # js_split c xs
      else case js_split c xs of
             p # ps \<Rightarrow> (x # p) # ps
           | [] \<Rightarrow> [[x]])"

text \<open>
  \<open>atob\<close> is the platform's forgiving base64 decoder: it drops ASCII whitespace, drops
  one or two trailing \<open>=\<close> when the length is a multiple of four, throws (here \<open>None\<close>)
  when the length is then \<open>1\<close> modulo \<open>4\<close> or a character is outside the standard
  alphabet, and otherwise turns every six bits into output bytes, dropping the bits
  left over.
\<close>

definition ascii_whitespace :: "char \<Rightarrow> bool" where
  "ascii_whitespace c = ((of_char c :: nat) \<in> {9, 10, 12, 13, 32})"

definition b64_value :: "char \<Rightarrow> nat option" where
  "b64_value c =
     (let n = (of_char c :: nat) in
      if 65 \<le> n \<and> n \<le> 90 then Some (n - 65)
      else if 97 \<le> n \<and> n \<le> 122 then Some (n - 71)
      else if 48 \<le> n \<and> n \<le> 57 then Some (n + 4)
      else if n = 43 then Some 62
      else if n = 47 then Some 63
      else None)"

fun b64_bytes :: "nat list \<Rightarrow> nat list" where
  "b64_bytes (a # b # c # d # rest) =
     (a * 4 + b div 16) # ((b mod 16) * 16 + c div 4) # ((c mod 4) * 64 + d) # b64_bytes rest"
| "b64_bytes [a, b, c] = [a * 4 + b div 16, (b mod 16) * 16 + c div 4]"
| "b64_bytes [a, b] = [a * 4 + b div 16]"
| "b64_bytes _ = []"

definition strip_padding :: "string \<Rightarrow> string" where
  "strip_padding d =
     (if length d mod 4 = 0 then
        (if 2 \<le> length d \<and> last d = CHR ''='' \<and> last (butlast d) = CHR ''=''
         then butlast (butlast d)
         else if 1 \<le> length d \<and> last d = CHR ''='' then butlast d
         else d)
      else d)"

definition atob :: "string \<Rightarrow> string option" where
  "atob str =
     (let d = strip_padding (filter (\<lambda>c. \<not> ascii_whitespace c) str) in
      if length d mod 4 = 1 then None
      else if \<exists>c \<in> set d. b64_value c = None then None
      else Some (map char_of (b64_bytes (map (\<lambda>c. the (b64_value c)) d))))"

definition base64UrlDecode :: "string \<Rightarrow> string option" where
  "base64UrlDecode str =
     (let str1 = str @ replicate ((4 - (length str mod 4)) mod 4) CHR ''='';
          str2 = map (\<lambda>c. if c = CHR ''-'' then CHR ''+'' else c) str1;
          str3 = map (\<lambda>c. if c = CHR ''_'' then CHR ''/'' else c) str2
      in atob str3)"

record ParsedJWT =
  header :: json
  payload :: json
  signature :: string

text \<open>
  \<open>JSON.parse\<close> is the platform's parser, the argument \<open>J\<close>: \<open>None\<close> when it throws.
  Every \<open>throw\<close> inside \<open>parseJWT\<close> is caught there and turned into \<open>null\<close>, here \<open>None\<close>.
\<close>

definition parseJWT :: "(string \<Rightarrow> json option) \<Rightarrow> string \<Rightarrow> ParsedJWT option" where
  "parseJWT J token =
     (let parts = js_split CHR ''.'' token in
      if length parts \<noteq> 3 then None
      else case base64UrlDecode (parts ! 0) of
             None \<Rightarrow> None
           | Some htext \<Rightarrow>
               (case J htext of
                  None \<Rightarrow> None
                | Some h \<Rightarrow>
                    (case base64UrlDecode (parts ! 1) of
                       None \<Rightarrow> None
                     | Some ptext \<Rightarrow>
                         (case J ptext of
                            None \<Rightarrow> None
                          | Some p \<Rightarrow>
                              Some \<lparr>header = h, payload = p, signature = parts ! 2\<rparr>))))"

subsection \<open>The grouping identity\<close>

text \<open>\<open>TextEncoder.encode\<close>: UTF-8, for code units below 256.\<close>

definition utf8_encode :: "string \<Rightarrow> 8 word list" where
  "utf8_encode s =
     concat (map (\<lambda>c. let n = (of_char c :: nat) in
                        if n < 128 then [of_nat n]
                        else [of_nat (192 + n div 64), of_nat (128 + n mod 64)]) s)"

definition hex_digit :: "nat \<Rightarrow> char" where
  "hex_digit n = ''0123456789abcdef'' ! (n mod 16)"

text \<open>\<open>b.toString(16).padStart(2, "0")\<close> for a byte.\<close>

definition hex_byte :: "8 word \<Rightarrow> string" where
  "hex_byte b = [hex_digit (unat b div 16), hex_digit (unat b mod 16)]"

text \<open>
  \<open>crypto.subtle.digest("SHA-256", data)\<close> is the platform's digest, the argument \<open>H\<close>
  from bytes to bytes.
\<close>

definition generateTokenId :: "(8 word list \<Rightarrow> 8 word list) \<Rightarrow> string \<Rightarrow> string" where
  "generateTokenId H token =
     (let parts = js_split CHR ''.'' token in
      if length parts \<noteq> 3 then token
      else let payloadAndSignature = (parts ! 1) @ ''.'' @ (parts ! 2);
               hashHex = concat (map hex_byte (H (utf8_encode payloadAndSignature)))
           in take 16 hashHex)"

section \<open>The stored data (types/jwt.ts)\<close>

text \<open>
  The records are those of \<open>types/jwt.ts\<close>. The type of the instants is a parameter:
  in memory they are \<open>Date\<close>s (the expiry a \<open>Date\<close> or \<open>null\<close>), in the blob read back from
  \<open>chrome.storage\<close> they are whatever was serialised.
\<close>

record 't RequestInfo =
  id' :: string
  url :: string
  method' :: string
  abbreviatedPath :: string
  timestamp :: 't

record ('e, 't) JWTTokenGroup =
  tokenId :: string
  raw :: string
  header :: json
  payload :: json
  signature :: string
  expiryDate :: 'e
  isExpired :: bool
  requests :: "'t RequestInfo list"
  firstSeen :: 't
  lastSeen :: 't
  isValid :: bool
  parseError :: "string option"

record ('e, 't) ExtensionStorage =
  tokenGroups :: "('e, 't) JWTTokenGroup list"
  maxTokenGroups :: "number option"
  retentionHours :: "number option"

type_synonym Request = "Date RequestInfo"
type_synonym TokenGroup = "(Date option, Date) JWTTokenGroup"
type_synonym Storage = "(Date option, Date) ExtensionStorage"

definition createTokenGroup ::
  "(8 word list \<Rightarrow> 8 word list) \<Rightarrow> (string \<Rightarrow> json option) \<Rightarrow> int \<Rightarrow> string \<Rightarrow> Request
   \<Rightarrow> TokenGroup option" where
  "createTokenGroup H J now token requestInfo =
     (case parseJWT J token of
        None \<Rightarrow> None
      | Some parsed \<Rightarrow>
          Some \<lparr>tokenId = generateTokenId H token,
                raw = token,
                header = ParsedJWT.header parsed,
                payload = ParsedJWT.payload parsed,
                signature = ParsedJWT.signature parsed,
                expiryDate = getExpiryDate (ParsedJWT.payload parsed),
                isExpired = isTokenExpired now (ParsedJWT.payload parsed),
                requests = [requestInfo],
                firstSeen = timestamp requestInfo,
                lastSeen = timestamp requestInfo,
                isValid = True,
                parseError = None\<rparr>)"

section \<open>The background worker (background/background.ts)\<close>

definition MAX_TOKEN_GROUPS :: nat where
  "MAX_TOKEN_GROUPS = 100"

definition RETENTION_HOURS :: int where
  "RETENTION_HOURS = 24"

text \<open>\<open>xs.findIndex(p)\<close>: \<open>None\<close> stands for \<open>-1\<close>.\<close>

fun findIndex :: "('a \<Rightarrow> bool) \<Rightarrow> 'a list \<Rightarrow> nat option" where
  "findIndex p [] = None"
| "findIndex p (x # xs) = (if p x then Some 0 else map_option Suc (findIndex p xs))"

text \<open>
  \<open>xs.sort(comparefn)\<close>. The language fixes the result for a consistent comparator: the
  stable sort. A comparator result \<open>NaN\<close> counts as \<open>0\<close>, and \<open>x\<close> stays before \<open>y\<close>
  unless the result is positive. The model is the stable insertion sort; with an
  inconsistent comparator (an invalid date among the keys) the language leaves the order
  to the engine, and the model is then one of the allowed results.
\<close>

definition sort_compare :: "('a \<Rightarrow> 'a \<Rightarrow> number) \<Rightarrow> 'a \<Rightarrow> 'a \<Rightarrow> number" where
  "sort_compare comparefn x y = (let v = comparefn x y in if isNaN v then Fin 0 else v)"

fun insort_js :: "('a \<Rightarrow> 'a \<Rightarrow> number) \<Rightarrow> 'a \<Rightarrow> 'a list \<Rightarrow> 'a list" where
  "insort_js comparefn x [] = [x]"
| "insort_js comparefn x (y # ys) =
     (if num_greater (sort_compare comparefn x y) (Fin 0) then y # insort_js comparefn x ys
      else x # y # ys)"

definition sort_js :: "('a \<Rightarrow> 'a \<Rightarrow> number) \<Rightarrow> 'a list \<Rightarrow> 'a list" where
  "sort_js comparefn xs = foldr (insort_js comparefn) xs []"

text \<open>The comparator of \<open>storeTokenData\<close>: \<open>(a, b) => b.timestamp.getTime() - a.timestamp.getTime()\<close>.\<close>

definition newest_first :: "Request \<Rightarrow> Request \<Rightarrow> number" where
  "newest_first a b = num_minus (getTime (timestamp b)) (getTime (timestamp a))"

text \<open>
  \<open>storeTokenData\<close> loads the blob, changes it and saves it. The model is the function
  from the loaded storage to the saved one; \<open>H\<close> is the digest, \<open>J\<close> is \<open>JSON.parse\<close> and
  \<open>now\<close> is \<open>Date.now()\<close>. Nothing in the body throws, so the \<open>catch\<close> has no branch.
\<close>

definition storeTokenData ::
  "(8 word list \<Rightarrow> 8 word list) \<Rightarrow> (string \<Rightarrow> json option) \<Rightarrow> int \<Rightarrow> string \<Rightarrow> Request
   \<Rightarrow> Storage \<Rightarrow> Storage" where
  "storeTokenData H J now token requestInfo storage =
     (let tid = generateTokenId H token;
          groups = tokenGroups storage;
          groups1 =
            (case findIndex (\<lambda>group. tokenId group = tid) groups of
               Some i \<Rightarrow>
                 (let existingGroup = groups ! i;
                      g1 = existingGroup\<lparr>requests := requests existingGroup @ [requestInfo],
                                         lastSeen := timestamp requestInfo\<rparr>;
                      g2 = (case parseJWT J token of
                              Some parsed \<Rightarrow>
                                g1\<lparr>isExpired := isTokenExpired now (ParsedJWT.payload parsed)\<rparr>
                            | None \<Rightarrow> g1);
                      g3 = (if length (requests g2) > 50
                            then g2\<lparr>requests := take 50 (sort_js newest_first (requests g2))\<rparr>
                            else g2)
                  in groups[i := g3])
             | None \<Rightarrow>
                 (case createTokenGroup H J now token requestInfo of
                    Some newGroup \<Rightarrow> newGroup # groups
                  | None \<Rightarrow> groups));
          groups2 = (if length groups1 > MAX_TOKEN_GROUPS then take MAX_TOKEN_GROUPS groups1
                     else groups1)
      in storage\<lparr>tokenGroups := groups2\<rparr>)"

text \<open>A run of upserts, each on the storage the one before saved.\<close>

fun upserts ::
  "(8 word list \<Rightarrow> 8 word list) \<Rightarrow> (string \<Rightarrow> json option) \<Rightarrow> (int \<times> string \<times> Request) list
   \<Rightarrow> Storage \<Rightarrow> Storage" where
  "upserts H J [] storage = storage"
| "upserts H J ((now, token, requestInfo) # rest) storage =
     upserts H J rest (storeTokenData H J now token requestInfo storage)"

subsection \<open>The retention sweep\<close>

text \<open>The sweep of \<open>background/background.ts\<close>; every \<open>Date.now()\<close> of one run reads \<open>now\<close>.\<close>

definition cleanupOldData :: "int \<Rightarrow> Storage \<Rightarrow> Storage" where
  "cleanupOldData now storage =
     (let cutoffTime = now - RETENTION_HOURS * 60 * 60 * 1000;
          updated = map (\<lambda>group.
                      group\<lparr>isExpired := isTokenExpired now (payload group),
                            requests := filter (\<lambda>req. num_greater (getTime (timestamp req))
                                                       (Fin (of_int cutoffTime)))
                                          (requests group)\<rparr>)
                    (tokenGroups storage)
      in storage\<lparr>tokenGroups :=
           filter (\<lambda>group.
                     let hasRecentRequests = length (requests group) > 0;
                         groupIsVeryOld = num_less (getTime (lastSeen group)) (Fin (of_int cutoffTime))
                     in hasRecentRequests \<or> \<not> groupIsVeryOld)
                  updated\<rparr>)"

text \<open>
  The second worker class, the one printed after \<open>JWTUtils\<close> in \<open>utils/jwt.ts\<close>, has its
  own sweep with a window of two hours and a rule on the expiry.
\<close>

definition RETENTION_HOURS_2 :: int where
  "RETENTION_HOURS_2 = 2"

text \<open>\<open>!!x\<close> for a number or \<open>null\<close>.\<close>

fun truthy_time :: "number option \<Rightarrow> bool" where
  "truthy_time None = False"
| "truthy_time (Some n) = (n \<noteq> Fin 0 \<and> n \<noteq> NaN)"

definition expiredMoreThanAnHour :: "int \<Rightarrow> TokenGroup \<Rightarrow> bool" where
  "expiredMoreThanAnHour now grp =
     (let expiryTime0 =
            (case expiryDate grp of
               Some d \<Rightarrow> if \<not> isNaN (getTime d) then Some (getTime d) else None
             | None \<Rightarrow> None);
          expiryTime =
            (if \<not> truthy_time expiryTime0 \<and> \<not> falsy (payload grp)
                \<and> typeof_number (getProp (payload grp) ''exp'')
             then (case getProp (payload grp) ''exp'' of
                     Some (JNumber e) \<Rightarrow> Some (num_times e 1000)
                   | _ \<Rightarrow> expiryTime0)
             else expiryTime0)
      in if truthy_time expiryTime
         then num_greater
                (num_divide (num_minus (Fin (of_int now)) (the expiryTime)) (60 * 60 * 1000))
                (Fin 1)
         else False)"

definition cleanupOldData_2 :: "int \<Rightarrow> Storage \<Rightarrow> Storage" where
  "cleanupOldData_2 now storage =
     (let cutoffTime = now - RETENTION_HOURS_2 * 60 * 60 * 1000;
          updated = map (\<lambda>group.
                      group\<lparr>isExpired := isTokenExpired now (payload group),
                            requests := filter (\<lambda>req. num_greater (getTime (timestamp req))
                                                       (Fin (of_int cutoffTime)))
                                          (requests group)\<rparr>)
                    (tokenGroups storage)
      in storage\<lparr>tokenGroups :=
           filter (\<lambda>group.
                     let isCurrentlyExpired = isTokenExpired now (payload group);
                         shouldKeep = \<not> isCurrentlyExpired \<or> \<not> expiredMoreThanAnHour now group
                     in shouldKeep)
                  updated\<rparr>)"

section \<open>Reading the blob back\<close>

text \<open>
  What \<open>chrome.storage.local.get\<close> hands back in the place of an instant: a string, a
  number, a boolean, \<open>null\<close>, or nothing at all (\<open>undefined\<close>).
\<close>

datatype sval = SUndefined | SNull | SBool bool | SNumber number | SString string

fun truthy_sval :: "sval \<Rightarrow> bool" where
  "truthy_sval SUndefined = False"
| "truthy_sval SNull = False"
| "truthy_sval (SBool b) = b"
| "truthy_sval (SNumber n) = (n \<noteq> Fin 0 \<and> n \<noteq> NaN)"
| "truthy_sval (SString s) = (s \<noteq> [])"

text \<open>
  \<open>new Date(v)\<close> for such a value. A string goes through \<open>Date.parse\<close>, the platform's
  parser and the argument \<open>P\<close> (\<open>NaN\<close> for a text it does not read); anything else is
  converted to a number first.
\<close>

fun new_Date_of :: "(string \<Rightarrow> number) \<Rightarrow> sval \<Rightarrow> Date" where
  "new_Date_of P SUndefined = new_Date NaN"
| "new_Date_of P SNull = new_Date (Fin 0)"
| "new_Date_of P (SBool b) = new_Date (Fin (if b then 1 else 0))"
| "new_Date_of P (SNumber n) = new_Date n"
| "new_Date_of P (SString s) = new_Date (P s)"

type_synonym StoredRequest = "sval RequestInfo"
type_synonym StoredGroup = "(sval, sval) JWTTokenGroup"
type_synonym StoredStorage = "(sval, sval) ExtensionStorage"

text \<open>\<open>getStorage\<close> of the background worker; \<open>None\<close> is a store without the key.\<close>

definition getStorage :: "(string \<Rightarrow> number) \<Rightarrow> StoredStorage option \<Rightarrow> Storage" where
  "getStorage P data =
     (case data of
        Some d \<Rightarrow>
          \<lparr>tokenGroups =
             map (\<lambda>group.
                    \<lparr>tokenId = tokenId group, raw = raw group, header = header group,
                     payload = payload group, signature = signature group,
                     expiryDate = (if truthy_sval (expiryDate group)
                                   then Some (new_Date_of P (expiryDate group)) else None),
                     isExpired = isExpired group,
                     requests = map (\<lambda>req. \<lparr>id' = id' req, url = url req, method' = method' req,
                                               abbreviatedPath = abbreviatedPath req,
                                               timestamp = new_Date_of P (timestamp req)\<rparr>)
                                    (requests group),
                     firstSeen = new_Date_of P (firstSeen group),
                     lastSeen = new_Date_of P (lastSeen group),
                     isValid = isValid group, parseError = parseError group\<rparr>)
                 (tokenGroups d),
           maxTokenGroups = maxTokenGroups d,
           retentionHours = retentionHours d\<rparr>
      | None \<Rightarrow>
          \<lparr>tokenGroups = [],
           maxTokenGroups = Some (Fin (of_nat MAX_TOKEN_GROUPS)),
           retentionHours = Some (Fin (of_int RETENTION_HOURS))\<rparr>)"

subsection \<open>The popup's reader (popup/popup.ts)\<close>

definition parseDate :: "(string \<Rightarrow> number) \<Rightarrow> sval \<Rightarrow> Date option" where
  "parseDate P dateValue =
     (if \<not> truthy_sval dateValue then None
      else let parsed = new_Date_of P dateValue
           in if isNaN (getTime parsed) then None else Some parsed)"

text \<open>\<open>parseDate(v) || new Date()\<close>, the clock reading \<open>now\<close>.\<close>

definition parseDate_or_now :: "(string \<Rightarrow> number) \<Rightarrow> int \<Rightarrow> sval \<Rightarrow> Date" where
  "parseDate_or_now P now v = (case parseDate P v of Some d \<Rightarrow> d | None \<Rightarrow> Date now)"

definition popup_getStorage ::
  "(string \<Rightarrow> number) \<Rightarrow> int \<Rightarrow> StoredStorage option \<Rightarrow> Storage" where
  "popup_getStorage P now data =
     (case data of
        Some d \<Rightarrow>
          \<lparr>tokenGroups =
             map (\<lambda>group.
                    let parsedExpiryDate = parseDate P (expiryDate group);
                        expired =
                          (case parsedExpiryDate of
                             Some pd \<Rightarrow> num_less (getTime pd) (Fin (of_int now))
                           | None \<Rightarrow>
                               (if \<not> falsy (payload group)
                                   \<and> typeof_number (getProp (payload group) ''exp'')
                                then (case getProp (payload group) ''exp'' of
                                        Some (JNumber e) \<Rightarrow>
                                          num_less (num_times e 1000) (Fin (of_int now))
                                      | _ \<Rightarrow> isExpired group)
                                else isExpired group))
                    in \<lparr>tokenId = tokenId group, raw = raw group, header = header group,
                        payload = payload group, signature = signature group,
                        expiryDate = parsedExpiryDate,
                        isExpired = expired,
                        requests = map (\<lambda>req. \<lparr>id' = id' req, url = url req,
                                                  method' = method' req,
                                                  abbreviatedPath = abbreviatedPath req,
                                                  timestamp = parseDate_or_now P now (timestamp req)\<rparr>)
                                       (requests group),
                        firstSeen = parseDate_or_now P now (firstSeen group),
                        lastSeen = parseDate_or_now P now (lastSeen group),
                        isValid = isValid group, parseError = parseError group\<rparr>)
                 (tokenGroups d),
           maxTokenGroups = maxTokenGroups d,
           retentionHours = retentionHours d\<rparr>
      | None \<Rightarrow> \<lparr>tokenGroups = [], maxTokenGroups = None, retentionHours = None\<rparr>)"

section \<open>A parser for a fragment of JSON\<close>

text \<open>
  The theorems below hold for every \<open>JSON.parse\<close>. Where a concrete run is evaluated, the
  parser is this one. It reads \<open>null\<close>, \<open>true\<close>, \<open>false\<close>, integers, strings without
  escapes, arrays and objects, with white space between them, and gives the value
  \<open>JSON.parse\<close> gives; it rejects every other text (also fractions, exponents and
  escapes, which \<open>JSON.parse\<close> reads). A member that repeats a name overwrites the
  earlier one.
\<close>

definition json_ws :: "char \<Rightarrow> bool" where
  "json_ws c = ((of_char c :: nat) \<in> {9, 10, 13, 32})"

definition is_digit :: "char \<Rightarrow> bool" where
  "is_digit c = (48 \<le> (of_char c :: nat) \<and> (of_char c :: nat) \<le> 57)"

definition digits_value :: "string \<Rightarrow> int" where
  "digits_value ds = foldl (\<lambda>acc c. acc * 10 + ((of_char c :: int) - 48)) 0 ds"

fun parse_string :: "string \<Rightarrow> string \<Rightarrow> (string \<times> string) option" where
  "parse_string [] acc = None"
| "parse_string (c # cs) acc =
     (if c = CHR 0x22 then Some (rev acc, cs)
      else if c = CHR 0x5C \<or> (of_char c :: nat) < 32 then None
      else parse_string cs (c # acc))"

definition parse_number :: "string \<Rightarrow> (json \<times> string) option" where
  "parse_number t =
     (let neg = (t \<noteq> [] \<and> hd t = CHR ''-'');
          u = (if neg then tl t else t);
          ds = takeWhile is_digit u;
          r = dropWhile is_digit u
      in if ds = [] \<or> (length ds > 1 \<and> hd ds = CHR ''0'') then None
         else if r \<noteq> [] \<and> hd r \<in> {CHR ''.'', CHR ''e'', CHR ''E''} then None
         else Some (JNumber (Fin (if neg then - of_int (digits_value ds)
                                  else of_int (digits_value ds))), r))"

text \<open>
  The list loops of the parser take the parser of one value as \<open>pv\<close>, and a bound on the
  number of rounds that the length of the text reaches.
\<close>

primrec parse_elements ::
  "(string \<Rightarrow> (json \<times> string) option) \<Rightarrow> nat \<Rightarrow> string \<Rightarrow> json list \<Rightarrow> (json \<times> string) option" where
  "parse_elements pv 0 s acc = None"
| "parse_elements pv (Suc k) s acc =
     (case pv s of
        None \<Rightarrow> None
      | Some (v, r) \<Rightarrow>
          (case dropWhile json_ws r of
             [] \<Rightarrow> None
           | d # r' \<Rightarrow>
               if d = CHR '','' then parse_elements pv k r' (acc @ [v])
               else if d = CHR '']'' then Some (JArray (acc @ [v]), r')
               else None))"

definition parse_key :: "string \<Rightarrow> (string \<times> string) option" where
  "parse_key s =
     (case dropWhile json_ws s of
        [] \<Rightarrow> None
      | q # r0 \<Rightarrow>
          if q \<noteq> CHR 0x22 then None
          else case parse_string r0 [] of
                 None \<Rightarrow> None
               | Some (k, r1) \<Rightarrow>
                   (case dropWhile json_ws r1 of
                      [] \<Rightarrow> None
                    | col # r2 \<Rightarrow> if col \<noteq> CHR '':'' then None else Some (k, r2)))"

primrec parse_members ::
  "(string \<Rightarrow> (json \<times> string) option) \<Rightarrow> nat \<Rightarrow> string \<Rightarrow> (string \<times> json) list
   \<Rightarrow> (json \<times> string) option" where
  "parse_members pv 0 s acc = None"
| "parse_members pv (Suc k) s acc =
     (case parse_key s of
        None \<Rightarrow> None
      | Some (name, r2) \<Rightarrow>
          (case pv r2 of
             None \<Rightarrow> None
           | Some (v, r3) \<Rightarrow>
               (case dropWhile json_ws r3 of
                  [] \<Rightarrow> None
                | d # r4 \<Rightarrow>
                    if d = CHR '','' then parse_members pv k r4 (AList.update name v acc)
                    else if d = CHR ''}'' then Some (JObject (AList.update name v acc), r4)
                    else None)))"

definition parse_value_step ::
  "(string \<Rightarrow> (json \<times> string) option) \<Rightarrow> string \<Rightarrow> (json \<times> string) option" where
  "parse_value_step pv s =
     (let t = dropWhile json_ws s in
      if take 4 t = ''null'' then Some (JNull, drop 4 t)
      else if take 4 t = ''true'' then Some (JBool True, drop 4 t)
      else if take 5 t = ''false'' then Some (JBool False, drop 5 t)
      else case t of
             [] \<Rightarrow> None
           | c # r \<Rightarrow>
               if c = CHR 0x22
               then map_option (\<lambda>(str, r'). (JString str, r')) (parse_string r [])
               else if c = CHR ''[''
               then (case dropWhile json_ws r of
                       [] \<Rightarrow> None
                     | d # r' \<Rightarrow> if d = CHR '']'' then Some (JArray [], r')
                                 else parse_elements pv (length r) r [])
               else if c = CHR ''{''
               then (case dropWhile json_ws r of
                       [] \<Rightarrow> None
                     | d # r' \<Rightarrow> if d = CHR ''}'' then Some (JObject [], r')
                                 else parse_members pv (length r) r [])
               else parse_number t)"

text \<open>The parser of one value, by the depth of nesting it may descend.\<close>

primrec parse_value :: "nat \<Rightarrow> string \<Rightarrow> (json \<times> string) option" where
  "parse_value 0 s = None"
| "parse_value (Suc n) s = parse_value_step (parse_value n) s"

definition JSON_fragment :: "string \<Rightarrow> json option" where
  "JSON_fragment s =
     (case parse_value (Suc (length s)) s of
        Some (v, r) \<Rightarrow> if dropWhile json_ws r = [] then Some v else None
      | None \<Rightarrow> None)"

section \<open>Notions used in the statements\<close>

text \<open>The URL-safe alphabet of a token segment: the characters the decoder gives a
  value, and \<open>-\<close> and \<open>_\<close>, which \<open>base64UrlDecode\<close> turns into \<open>+\<close> and \<open>/\<close> first.\<close>

definition urlsafe_char :: "char \<Rightarrow> bool" where
  "urlsafe_char c = (b64_value c \<noteq> None \<or> c = CHR ''-'' \<or> c = CHR ''_'')"

definition translate :: "string \<Rightarrow> string" where
  "translate s = map (\<lambda>c. if c = CHR ''_'' then CHR ''/'' else c)
                   (map (\<lambda>c. if c = CHR ''-'' then CHR ''+'' else c) s)"

text \<open>The identity of a three-segment token as a function of the text
  \<open>payload.signature\<close>: the first sixteen hex digits of its digest.\<close>

definition digest16 :: "(8 word list \<Rightarrow> 8 word list) \<Rightarrow> string \<Rightarrow> string" where
  "digest16 H s = take 16 (concat (map hex_byte (H (utf8_encode s))))"

text \<open>A request whose instant is a valid date, and that instant in milliseconds.\<close>

definition valid_request :: "Request \<Rightarrow> bool" where
  "valid_request r = (timestamp r \<noteq> Invalid_Date)"

definition time_of :: "Request \<Rightarrow> int" where
  "time_of r = (case timestamp r of Date t \<Rightarrow> t | Invalid_Date \<Rightarrow> 0)"

text \<open>The request list of a group after one more request, as \<open>storeTokenData\<close> leaves it.\<close>

definition pushed :: "Request list \<Rightarrow> Request \<Rightarrow> Request list" where
  "pushed rs r =
     (if length (rs @ [r]) > 50 then take 50 (sort_js newest_first (rs @ [r])) else rs @ [r])"

text \<open>The group an upsert of \<open>token\<close> with \<open>requestInfo\<close> makes of an existing group.\<close>

definition touched ::
  "(string \<Rightarrow> json option) \<Rightarrow> int \<Rightarrow> string \<Rightarrow> Request \<Rightarrow> TokenGroup \<Rightarrow> TokenGroup" where
  "touched J now token requestInfo g =
     g\<lparr>lastSeen := timestamp requestInfo,
       isExpired := (case parseJWT J token of
                       Some parsed \<Rightarrow> isTokenExpired now (ParsedJWT.payload parsed)
                     | None \<Rightarrow> isExpired g),
       requests := pushed (requests g) requestInfo\<rparr>"

text \<open>The empty store, as \<open>getStorage\<close> makes it when nothing was saved.\<close>

definition empty_storage :: Storage where
  "empty_storage =
     \<lparr>tokenGroups = [],
      maxTokenGroups = Some (Fin (of_nat MAX_TOKEN_GROUPS)),
      retentionHours = Some (Fin (of_int RETENTION_HOURS))\<rparr>"

text \<open>\<open>newest_first_sorted rs\<close>: no request of the list is older than one after it.\<close>

definition newest_first_sorted :: "Request list \<Rightarrow> bool" where
  "newest_first_sorted rs = sorted_wrt (\<lambda>a b. time_of b \<le> time_of a) rs"

text \<open>\<open>most_recent_of kept seen\<close>: the requests \<open>kept\<close> are among those \<open>seen\<close>, and no
  request that was seen and not kept is more recent than one that was kept.\<close>

definition most_recent_of :: "Request list \<Rightarrow> Request list \<Rightarrow> bool" where
  "most_recent_of kept seen =
     (mset kept \<subseteq># mset seen
      \<and> (\<forall>d \<in># mset seen - mset kept. \<forall>k \<in> set kept. time_of d \<le> time_of k))"

text \<open>An upsert is written as the triple of its clock reading, its token and its
  request; \<open>entry_id\<close> is the identity its token has.\<close>

definition entry_id :: "(8 word list \<Rightarrow> 8 word list) \<Rightarrow> int \<times> string \<times> Request \<Rightarrow> string" where
  "entry_id H e = generateTokenId H (fst (snd e))"

subsection \<open>Concrete inputs\<close>

text \<open>
  The runs that are evaluated use the tokens \<open>e30.e30.\<close>\<open>nnn\<close>: header and payload are
  the empty object, the signature is a number of three digits. Where a digest is needed
  for them it is the identity on bytes, under which these tokens have different
  identities.
\<close>

definition digits3 :: "nat \<Rightarrow> string" where
  "digits3 n = [char_of (48 + n div 100 mod 10), char_of (48 + n div 10 mod 10), char_of (48 + n mod 10)]"

definition example_token :: "nat \<Rightarrow> string" where
  "example_token n = ''e30.e30.'' @ digits3 n"

definition example_request :: "int \<Rightarrow> Request" where
  "example_request t =
     \<lparr>id' = ''req'', url = ''https://api.example.com/v1/users/1'', method' = ''GET'',
      abbreviatedPath = ''v1/users/1'', timestamp = Date t\<rparr>"

definition example_upsert :: "nat \<Rightarrow> int \<times> string \<times> Request" where
  "example_upsert n = (int n, example_token n, example_request (int n))"

text \<open>A run of \<open>n\<close> upserts of one token, the request of upsert \<open>k\<close> observed at the
  instant \<open>k\<close>.\<close>

definition same_token_upserts :: "nat \<Rightarrow> (int \<times> string \<times> Request) list" where
  "same_token_upserts n = map (\<lambda>k. (int k, example_token 100, example_request (int k))) [0..<n]"

subsection \<open>Notions of the retention sweep\<close>

text \<open>The cutoff of a sweep at \<open>now\<close>; a request observed after it; a group last seen
  before it; and a group as the sweep rewrites it.\<close>

definition cutoff :: "int \<Rightarrow> int" where
  "cutoff now = now - RETENTION_HOURS * 60 * 60 * 1000"

definition within_window :: "int \<Rightarrow> Request \<Rightarrow> bool" where
  "within_window now r = num_greater (getTime (timestamp r)) (Fin (of_int (cutoff now)))"

definition idle :: "int \<Rightarrow> TokenGroup \<Rightarrow> bool" where
  "idle now g = num_less (getTime (lastSeen g)) (Fin (of_int (cutoff now)))"

definition pruned :: "int \<Rightarrow> TokenGroup \<Rightarrow> TokenGroup" where
  "pruned now g =
     g\<lparr>isExpired := isTokenExpired now (payload g),
       requests := filter (within_window now) (requests g)\<rparr>"

text \<open>The token with the empty header, the payload \<open>{"exp":1000}\<close> and the signature
  \<open>sig\<close>: it expires one thousand seconds after the epoch.\<close>

definition expiring_token :: string where
  "expiring_token = ''e30.eyJleHAiOjEwMDB9.sig''"

text \<open>A blob whose one group has an expiry and a request instant that are texts, no
  \<open>firstSeen\<close> at all, and a \<open>lastSeen\<close> that is a number of milliseconds out of the
  range of dates.\<close>

definition malformed_group :: StoredGroup where
  "malformed_group =
     \<lparr>tokenId = ''0123456789abcdef'', raw = ''e30.e30.100'', header = JObject [],
      payload = JObject [], signature = ''100'',
      expiryDate = SString ''soon'', isExpired = False,
      requests = [\<lparr>id' = ''req'', url = ''https://api.example.com/v1/users/1'', method' = ''GET'',
                   abbreviatedPath = ''v1/users/1'', timestamp = SString ''yesterday''\<rparr>],
      firstSeen = SUndefined, lastSeen = SNumber (Fin 100000000000000000000),
      isValid = True, parseError = None\<rparr>"

definition malformed_snapshot :: StoredStorage where
  "malformed_snapshot =
     \<lparr>tokenGroups = [malformed_group], maxTokenGroups = Some (Fin 100),
      retentionHours = Some (Fin 24)\<rparr>"

section \<open>Properties of the expiry functions\<close>

lemma getProp_Some_not_falsy: "getProp p k = Some v \<Longrightarrow> \<not> falsy p"
  by (cases p) auto

lemma trunc_of_int [simp]: "trunc (of_int i) = i"
  by (simp add: trunc_def)

lemma trunc_numeral [simp]: "trunc (numeral k) = numeral k"
  by (simp add: trunc_def)

lemma getExpiryDate_number:
  "getProp p ''exp'' = Some (JNumber e) \<Longrightarrow> \<not> falsy p \<Longrightarrow>
   getExpiryDate p =
     (case new_Date (num_times e 1000) of Invalid_Date \<Rightarrow> None | Date t \<Rightarrow> Some (Date t))"
  by (simp add: getExpiryDate_def getTime_def isNaN_def Let_def split: Date.splits)




section \<open>Properties of the decoder\<close>

lemma js_split_not_Nil [simp]: "js_split c s \<noteq> []"
  by (induction s) (auto split: list.splits)

lemma js_split_no_sep: "c \<notin> set a \<Longrightarrow> js_split c a = [a]"
  by (induction a) auto

lemma js_split_append: "c \<notin> set a \<Longrightarrow> js_split c (a @ c # rest) = a # js_split c rest"
  by (induction a) (auto split: list.splits)

lemma js_split3:
  "c \<notin> set h \<Longrightarrow> c \<notin> set p \<Longrightarrow> c \<notin> set g \<Longrightarrow> js_split c (h @ c # p @ c # g) = [h, p, g]"
  by (simp add: js_split_append js_split_no_sep)

lemma b64_value_eq [simp]: "b64_value CHR ''='' = None"
  by (simp add: b64_value_def)

lemma b64_value_plus [simp]: "b64_value CHR ''+'' \<noteq> None" "b64_value CHR ''/'' \<noteq> None"
   "b64_value CHR ''-'' = None" "b64_value CHR ''_'' = None"
  by (simp_all add: b64_value_def)

lemma b64_not_ws: "b64_value c \<noteq> None \<Longrightarrow> \<not> ascii_whitespace c"
  by (auto simp: b64_value_def ascii_whitespace_def Let_def split: if_splits)

lemma in_butlast: "x \<in> set d \<Longrightarrow> x \<noteq> last d \<Longrightarrow> x \<in> set (butlast d)"
  by (cases d rule: rev_cases) auto

lemma in_strip_padding: "x \<in> set d \<Longrightarrow> x \<noteq> CHR ''='' \<Longrightarrow> x \<in> set (strip_padding d)"
  by (auto simp: strip_padding_def intro!: in_butlast)

lemma atob_bad_char:
  assumes "x \<in> set str" "\<not> ascii_whitespace x" "x \<noteq> CHR ''=''" "b64_value x = None"
  shows "atob str = None"
proof -
  from assms have "x \<in> set (strip_padding (filter (\<lambda>c. \<not> ascii_whitespace c) str))"
    by (intro in_strip_padding) auto
  with assms(4) show ?thesis
    by (auto simp: atob_def Let_def)
qed

lemma base64UrlDecode_translate:
  "base64UrlDecode s = atob (translate s @ replicate ((4 - (length s mod 4)) mod 4) CHR ''='')"
  by (simp add: base64UrlDecode_def translate_def Let_def)

lemma base64UrlDecode_bad_char:
  assumes "x \<in> set seg" "\<not> ascii_whitespace x" "x \<noteq> CHR ''=''" "\<not> urlsafe_char x"
  shows "base64UrlDecode seg = None"
proof -
  from assms(4) have n: "b64_value x = None" "x \<noteq> CHR ''-''" "x \<noteq> CHR ''_''"
    by (auto simp: urlsafe_char_def)
  then have "x \<in> set (translate seg)"
    using assms(1) by (force simp: translate_def)
  then show ?thesis
    unfolding base64UrlDecode_translate
    by (intro atob_bad_char [of x]) (use assms n in auto)
qed

lemma translate_b64: "\<forall>c\<in>set s. urlsafe_char c \<Longrightarrow> \<forall>c\<in>set (translate s). b64_value c \<noteq> None"
  by (auto simp: translate_def urlsafe_char_def)

lemma length_translate [simp]: "length (translate s) = length s"
  by (simp add: translate_def)

lemma atob_alphabet:
  assumes "\<forall>c\<in>set t. b64_value c \<noteq> None"
  shows "atob (t @ replicate ((4 - (length t mod 4)) mod 4) CHR ''='') \<noteq> None \<longleftrightarrow> length t mod 4 \<noteq> 1"
proof -
  let ?k = "(4 - (length t mod 4)) mod 4"
  let ?s = "t @ replicate ?k CHR ''=''"
  have "\<not> ascii_whitespace CHR ''=''"
    by (simp add: ascii_whitespace_def)
  then have "\<forall>c\<in>set ?s. \<not> ascii_whitespace c"
    using assms by (auto simp: b64_not_ws)
  then have nows: "filter (\<lambda>c. \<not> ascii_whitespace c) ?s = ?s"
    by (simp only: filter_id_conv)
  have len: "length ?s mod 4 = 0"
    by (simp add: mod_simps) presburger
  have lastt: "t \<noteq> [] \<Longrightarrow> last t \<noteq> CHR ''=''"
    using assms by (metis b64_value_eq last_in_set)
  consider (0) "length t mod 4 = 0" | (1) "length t mod 4 = 1" | (2) "length t mod 4 = 2" | (3) "length t mod 4 = 3"
    by (metis One_nat_def Suc_1 less_Suc_eq less_nat_zero_code mod_less_divisor numeral_3_eq_3 numeral_Bit0 zero_less_numeral add_2_eq_Suc' not_less_eq)
  then show ?thesis
  proof cases
    case 0
    then have k: "?k = 0" by simp
    have "strip_padding t = t"
      using 0 lastt by (cases "t = []") (auto simp: strip_padding_def)
    with 0 assms show ?thesis
      unfolding k by (simp add: atob_def nows [unfolded k, simplified] Let_def)
  next
    case 1
    then have k: "?k = 3" by simp
    have r: "replicate 3 CHR ''='' = ''===''" by (simp add: numeral_3_eq_3)
    have "strip_padding (t @ ''==='') = t @ ''=''"
      using 1 by (simp add: strip_padding_def butlast_append) presburger
    with 1 show ?thesis
      using nows unfolding k r by (simp add: atob_def Let_def)
  next
    case 2
    then have k: "?k = 2" by simp
    have r: "replicate 2 CHR ''='' = ''==''" by (simp add: numeral_2_eq_2)
    have "strip_padding (t @ ''=='') = t"
      using 2 by (simp add: strip_padding_def butlast_append) presburger
    with 2 assms show ?thesis
      using nows unfolding k r by (simp add: atob_def Let_def)
  next
    case 3
    then have k: "?k = 1" by simp
    have r: "replicate 1 CHR ''='' = ''=''" by simp
    have l: "Suc (length t) mod 4 = 0" using 3 by presburger
    have "strip_padding (t @ ''='') = t"
      using l lastt by (cases "t = []") (auto simp: strip_padding_def)
    with 3 assms show ?thesis
      using nows unfolding k r by (simp add: atob_def Let_def)
  qed
qed

lemma base64UrlDecode_urlsafe:
  "\<forall>c\<in>set seg. urlsafe_char c \<Longrightarrow> base64UrlDecode seg \<noteq> None \<longleftrightarrow> length seg mod 4 \<noteq> 1"
  using atob_alphabet [OF translate_b64, of seg]
  by (simp add: base64UrlDecode_translate)

lemma length3_conv: "length xs = 3 \<longleftrightarrow> (\<exists>a b c. xs = [a, b, c])"
  by (auto simp: numeral_3_eq_3 length_Suc_conv)

lemma parseJWT_parts:
  "js_split CHR ''.'' token = [h, p, g] \<Longrightarrow>
   parseJWT J token =
     (case base64UrlDecode h of
        None \<Rightarrow> None
      | Some ht \<Rightarrow>
          (case J ht of
             None \<Rightarrow> None
           | Some hv \<Rightarrow>
               (case base64UrlDecode p of
                  None \<Rightarrow> None
                | Some pt \<Rightarrow>
                    (case J pt of
                       None \<Rightarrow> None
                     | Some pv \<Rightarrow>
                         Some \<lparr>ParsedJWT.header = hv, ParsedJWT.payload = pv,
                               ParsedJWT.signature = g\<rparr>))))"
  by (simp add: parseJWT_def Let_def split: option.splits)

lemma parseJWT_not3: "length (js_split CHR ''.'' token) \<noteq> 3 \<Longrightarrow> parseJWT J token = None"
  by (simp add: parseJWT_def)

lemma parseJWT_Some_iff:
  "parseJWT J token = Some r \<longleftrightarrow>
     (\<exists>h p ht pt. js_split CHR ''.'' token = [h, p, ParsedJWT.signature r]
        \<and> base64UrlDecode h = Some ht \<and> J ht = Some (ParsedJWT.header r)
        \<and> base64UrlDecode p = Some pt \<and> J pt = Some (ParsedJWT.payload r))"
proof (cases "length (js_split CHR ''.'' token) = 3")
  case True
  then obtain h p g where s: "js_split CHR ''.'' token = [h, p, g]"
    by (auto simp: length3_conv)
  show ?thesis
    unfolding parseJWT_parts [OF s] s
    by (cases r) (auto split: option.splits)
next
  case False
  then show ?thesis
    by (auto simp: parseJWT_not3)
qed

lemma parseJWT_first_two:
  assumes "seg \<in> set (take 2 (js_split CHR ''.'' token))" "base64UrlDecode seg = None \<or> (\<exists>t. base64UrlDecode seg = Some t \<and> J t = None)"
  shows "parseJWT J token = None"
proof (cases "length (js_split CHR ''.'' token) = 3")
  case True
  then obtain h p g where s: "js_split CHR ''.'' token = [h, p, g]"
    by (auto simp: length3_conv)
  with assms(1) have "seg = h \<or> seg = p"
    by (auto simp: numeral_2_eq_2)
  with assms(2) show ?thesis
    unfolding parseJWT_parts [OF s] by (auto split: option.splits)
next
  case False
  then show ?thesis by (simp add: parseJWT_not3)
qed

lemma decode_e30: "base64UrlDecode ''e30'' = Some ''{}''"
  by code_simp

lemma decode_NQ: "base64UrlDecode ''NQ'' = Some ''5''"
  by code_simp

lemma JSON_fragment_empty_object: "JSON_fragment ''{}'' = Some (JObject [])"
  by code_simp

lemma JSON_fragment_5: "JSON_fragment ''5'' = Some (JNumber (Fin 5))"
  by code_simp

lemma parseJWT_e30:
  "CHR ''.'' \<notin> set g \<Longrightarrow>
   parseJWT JSON_fragment (''e30.e30.'' @ g)
     = Some \<lparr>ParsedJWT.header = JObject [], ParsedJWT.payload = JObject [],
             ParsedJWT.signature = g\<rparr>"
proof -
  assume "CHR ''.'' \<notin> set g"
  then have "js_split CHR ''.'' (''e30'' @ CHR ''.'' # ''e30'' @ CHR ''.'' # g) = [''e30'', ''e30'', g]"
    by (intro js_split3) simp_all
  then have "js_split CHR ''.'' (''e30.e30.'' @ g) = [''e30'', ''e30'', g]"
    by simp
  from parseJWT_parts [OF this] show ?thesis
    by (simp add: decode_e30 JSON_fragment_empty_object)
qed

lemma JSON_fragment_empty_text: "JSON_fragment [] = None"
  by code_simp

subsection \<open>C3: what decode rejects\<close>




section \<open>Properties of the grouping identity\<close>

lemma js_split_no_sep_in_parts: "x \<in> set (js_split c s) \<Longrightarrow> c \<notin> set x"
proof (induction s arbitrary: x)
  case Nil
  then show ?case by simp
next
  case (Cons a s)
  show ?case
  proof (cases "a = c")
    case True
    with Cons show ?thesis by auto
  next
    case False
    obtain p ps where ps: "js_split c s = p # ps"
      by (cases "js_split c s") auto
    with Cons.prems False have "x = a # p \<or> x \<in> set ps" by auto
    then show ?thesis
      using Cons.IH [of p] Cons.IH [of x] ps False by auto
  qed
qed

lemma dot_join_inject:
  assumes "c \<notin> set p1" "c \<notin> set p2" "p1 @ c # g1 = p2 @ c # g2"
  shows "p1 = p2 \<and> g1 = g2"
  using assms
proof (induction p1 arbitrary: p2)
  case Nil
  then show ?case by (cases p2) auto
next
  case (Cons a p1)
  then show ?case by (cases p2) auto
qed

lemma generateTokenId_parts:
  "js_split CHR ''.'' token = [h, p, g] \<Longrightarrow> generateTokenId H token = digest16 H (p @ ''.'' @ g)"
  by (simp add: generateTokenId_def digest16_def Let_def)

lemma generateTokenId_not3:
  "length (js_split CHR ''.'' token) \<noteq> 3 \<Longrightarrow> generateTokenId H token = token"
  by (simp add: generateTokenId_def)

lemma length_hex_concat: "length (concat (map hex_byte bs)) = 2 * length bs"
  by (induction bs) (auto simp: hex_byte_def)

lemma length_digest16: "length (digest16 H s) \<le> 16"
  by (simp add: digest16_def)

lemma length_digest16_full: "8 \<le> length (H (utf8_encode s)) \<Longrightarrow> length (digest16 H s) = 16"
  by (simp add: digest16_def length_hex_concat)

lemma finite_short_strings: "finite {xs :: string. length xs \<le> n}"
  using finite_lists_length_le [of "UNIV :: char set" n] by simp

lemma digest16_collision:
  "\<exists>n m. n \<noteq> m \<and> digest16 H (replicate n CHR ''a'' @ ''.s'') = digest16 H (replicate m CHR ''a'' @ ''.s'')"
proof -
  let ?f = "\<lambda>n :: nat. digest16 H (replicate n CHR ''a'' @ ''.s'')"
  have "range ?f \<subseteq> {xs. length xs \<le> 16}"
    by (auto simp: length_digest16)
  then have "finite (range ?f)"
    by (rule finite_subset) (rule finite_short_strings)
  then have "\<not> inj ?f"
    using finite_imageD infinite_UNIV_nat by blast
  then show ?thesis
    by (auto simp: inj_on_def)
qed

lemma digest16_id_sig: "digest16 (\<lambda>bs. bs) ''e30.sig'' = ''6533302e736967''"
  by code_simp

lemma digest16_id_sih: "digest16 (\<lambda>bs. bs) ''e30.sih'' = ''6533302e736968''"
  by code_simp

lemma length_utf8_signature: "length (utf8_encode ''e30.signature'') = 13"
  by code_simp

subsection \<open>C5: when two identities are equal\<close>

text \<open>
  C5. As stated the claim fails, for every digest. A string with other than three
  segments is its own identity, so \<open>a.p.s.x\<close> and \<open>b.p.s.y\<close> agree on the second and third
  segment and differ in identity. And among the three-segment tokens the "only if" half
  cannot hold: the identity has at most sixteen characters, the payload segments are
  unbounded, so two tokens with the same header and signature and different payload
  segments share an identity.
\<close>

theorem C5_identity_not_injective:
  "\<forall>H. (js_split CHR ''.'' ''a.p.s.x'' ! 1 = js_split CHR ''.'' ''b.p.s.y'' ! 1
          \<and> js_split CHR ''.'' ''a.p.s.x'' ! 2 = js_split CHR ''.'' ''b.p.s.y'' ! 2
          \<and> generateTokenId H ''a.p.s.x'' \<noteq> generateTokenId H ''b.p.s.y'')
      \<and> (\<exists>h p1 p2 g c1 c2. js_split CHR ''.'' c1 = [h, p1, g] \<and> js_split CHR ''.'' c2 = [h, p2, g]
            \<and> p1 \<noteq> p2 \<and> generateTokenId H c1 = generateTokenId H c2)"
proof (intro allI conjI)
  fix H :: "8 word list \<Rightarrow> 8 word list"
  show "js_split CHR ''.'' ''a.p.s.x'' ! 1 = js_split CHR ''.'' ''b.p.s.y'' ! 1"
    by simp
  show "js_split CHR ''.'' ''a.p.s.x'' ! 2 = js_split CHR ''.'' ''b.p.s.y'' ! 2"
    by simp
  show "generateTokenId H ''a.p.s.x'' \<noteq> generateTokenId H ''b.p.s.y''"
    by (simp add: generateTokenId_def)
  obtain n m where nm: "n \<noteq> m"
    "digest16 H (replicate n CHR ''a'' @ ''.s'') = digest16 H (replicate m CHR ''a'' @ ''.s'')"
    using digest16_collision by blast
  let ?c = "\<lambda>k. ''h'' @ CHR ''.'' # replicate k CHR ''a'' @ CHR ''.'' # ''s''"
  have sp: "js_split CHR ''.'' (?c k) = [''h'', replicate k CHR ''a'', ''s'']" for k
    by (intro js_split3) auto
  have g: "generateTokenId H (?c k) = digest16 H (replicate k CHR ''a'' @ ''.s'')" for k
    unfolding generateTokenId_parts [OF sp] by simp
  have "generateTokenId H (?c n) = generateTokenId H (?c m)"
    unfolding g by (rule nm(2))
  moreover have "replicate n CHR ''a'' \<noteq> replicate m CHR ''a''"
    using nm(1) by (metis length_replicate)
  ultimately show "\<exists>h p1 p2 g c1 c2. js_split CHR ''.'' c1 = [h, p1, g]
      \<and> js_split CHR ''.'' c2 = [h, p2, g] \<and> p1 \<noteq> p2
      \<and> generateTokenId H c1 = generateTokenId H c2"
    using sp by blast
qed

text \<open>
  C5, amended. For tokens of three segments the identity is the first sixteen hex
  digits of the digest of \<open>payload.signature\<close> (at most sixteen characters, exactly sixteen
  when the digest has eight bytes or more). Tokens with the same payload segment and the
  same signature segment have the same identity, whatever their headers. Two identities
  are equal exactly when the two truncated digests are; on a set of texts on which the
  truncated digest has no collision this is the case exactly when the payload segments
  and the signature segments are the same. A string with another number of segments is
  its own identity.
\<close>

theorem C5_identity:
  "(js_split CHR ''.'' c1 = [h1, p1, g1] \<and> js_split CHR ''.'' c2 = [h2, p2, g2] \<longrightarrow>
      generateTokenId H c1 = digest16 H (p1 @ ''.'' @ g1)
      \<and> (p1 = p2 \<and> g1 = g2 \<longrightarrow> generateTokenId H c1 = generateTokenId H c2)
      \<and> (generateTokenId H c1 = generateTokenId H c2
           \<longleftrightarrow> digest16 H (p1 @ ''.'' @ g1) = digest16 H (p2 @ ''.'' @ g2))
      \<and> (inj_on (digest16 H) S \<and> p1 @ ''.'' @ g1 \<in> S \<and> p2 @ ''.'' @ g2 \<in> S \<longrightarrow>
            (generateTokenId H c1 = generateTokenId H c2 \<longleftrightarrow> p1 = p2 \<and> g1 = g2))
      \<and> length (generateTokenId H c1) \<le> 16
      \<and> (8 \<le> length (H (utf8_encode (p1 @ ''.'' @ g1))) \<longrightarrow> length (generateTokenId H c1) = 16))
   \<and> (length (js_split CHR ''.'' c1) \<noteq> 3 \<longrightarrow> generateTokenId H c1 = c1)"
proof (intro conjI impI)
  assume a: "js_split CHR ''.'' c1 = [h1, p1, g1] \<and> js_split CHR ''.'' c2 = [h2, p2, g2]"
  then have i1: "generateTokenId H c1 = digest16 H (p1 @ ''.'' @ g1)"
    and i2: "generateTokenId H c2 = digest16 H (p2 @ ''.'' @ g2)"
    by (simp_all add: generateTokenId_parts)
  show "generateTokenId H c1 = digest16 H (p1 @ ''.'' @ g1)" by (rule i1)
  show "generateTokenId H c1 = generateTokenId H c2" if "p1 = p2 \<and> g1 = g2"
    using that by (simp add: i1 i2)
  show "generateTokenId H c1 = generateTokenId H c2
           \<longleftrightarrow> digest16 H (p1 @ ''.'' @ g1) = digest16 H (p2 @ ''.'' @ g2)"
    by (simp add: i1 i2)
  show "length (generateTokenId H c1) \<le> 16"
    by (simp add: i1 length_digest16)
  show "length (generateTokenId H c1) = 16" if "8 \<le> length (H (utf8_encode (p1 @ ''.'' @ g1)))"
    using that by (simp add: i1 length_digest16_full)
  show "generateTokenId H c1 = generateTokenId H c2 \<longleftrightarrow> p1 = p2 \<and> g1 = g2"
    if s: "inj_on (digest16 H) S \<and> p1 @ ''.'' @ g1 \<in> S \<and> p2 @ ''.'' @ g2 \<in> S"
  proof -
    from a have nd: "CHR ''.'' \<notin> set p1" "CHR ''.'' \<notin> set p2"
      using js_split_no_sep_in_parts [of p1 "CHR ''.''" c1]
        js_split_no_sep_in_parts [of p2 "CHR ''.''" c2] by auto
    have "generateTokenId H c1 = generateTokenId H c2 \<longleftrightarrow> p1 @ ''.'' @ g1 = p2 @ ''.'' @ g2"
      using s by (auto simp: i1 i2 inj_on_def)
    also have "\<dots> \<longleftrightarrow> p1 = p2 \<and> g1 = g2"
      using dot_join_inject [OF nd, of g1 g2] by auto
    finally show ?thesis .
  qed
next
  assume "length (js_split CHR ''.'' c1) \<noteq> 3"
  then show "generateTokenId H c1 = c1"
    by (rule generateTokenId_not3)
qed

theorem C5_identity_witness:
  "(js_split CHR ''.'' ''aGVhZA.e30.sig'' = [''aGVhZA'', ''e30'', ''sig'']
      \<and> js_split CHR ''.'' ''e30.e30.sig'' = [''e30'', ''e30'', ''sig'']
      \<and> (\<forall>H. generateTokenId H ''aGVhZA.e30.sig'' = digest16 H ''e30.sig'')
      \<and> (\<forall>H. generateTokenId H ''aGVhZA.e30.sig'' = generateTokenId H ''e30.e30.sig'')
      \<and> (\<forall>H. length (generateTokenId H ''aGVhZA.e30.sig'') \<le> 16))
   \<and> (js_split CHR ''.'' ''e30.e30.sih'' = [''e30'', ''e30'', ''sih'']
      \<and> inj_on (digest16 (\<lambda>bs. bs)) {''e30.sig'', ''e30.sih''}
      \<and> generateTokenId (\<lambda>bs. bs) ''e30.e30.sig'' \<noteq> generateTokenId (\<lambda>bs. bs) ''e30.e30.sih'')
   \<and> (js_split CHR ''.'' ''e30.e30.signature'' = [''e30'', ''e30'', ''signature'']
      \<and> 8 \<le> length (utf8_encode ''e30.signature'')
      \<and> length (generateTokenId (\<lambda>bs. bs) ''e30.e30.signature'') = 16)
   \<and> (length (js_split CHR ''.'' ''abc'') \<noteq> 3 \<and> (\<forall>H. generateTokenId H ''abc'' = ''abc''))"
proof -
  have s1: "js_split CHR ''.'' ''aGVhZA.e30.sig'' = [''aGVhZA'', ''e30'', ''sig'']"
    and s2: "js_split CHR ''.'' ''e30.e30.sig'' = [''e30'', ''e30'', ''sig'']"
    and s3: "js_split CHR ''.'' ''e30.e30.sih'' = [''e30'', ''e30'', ''sih'']"
    and s4: "js_split CHR ''.'' ''e30.e30.signature'' = [''e30'', ''e30'', ''signature'']"
    and s5: "length (js_split CHR ''.'' ''abc'') \<noteq> 3"
    by simp_all
  have a: "generateTokenId H ''aGVhZA.e30.sig'' = digest16 H ''e30.sig''
      \<and> generateTokenId H ''aGVhZA.e30.sig'' = generateTokenId H ''e30.e30.sig''
      \<and> length (generateTokenId H ''aGVhZA.e30.sig'') \<le> 16" for H
    using C5_identity [of "''aGVhZA.e30.sig''" "''aGVhZA''" "''e30''" "''sig''"
        "''e30.e30.sig''" "''e30''" "''e30''" "''sig''" H "{}"] s1 s2
    by auto
  have inj: "inj_on (digest16 (\<lambda>bs. bs)) {''e30.sig'', ''e30.sih''}"
    by (simp add: digest16_id_sig digest16_id_sih)
  have b: "generateTokenId (\<lambda>bs. bs) ''e30.e30.sig'' \<noteq> generateTokenId (\<lambda>bs. bs) ''e30.e30.sih''"
    using C5_identity [of "''e30.e30.sig''" "''e30''" "''e30''" "''sig''"
        "''e30.e30.sih''" "''e30''" "''e30''" "''sih''" "\<lambda>bs. bs" "{''e30.sig'', ''e30.sih''}"]
      s2 s3 inj
    by auto
  have l: "8 \<le> length (utf8_encode ''e30.signature'')"
    by (simp add: length_utf8_signature)
  have c: "length (generateTokenId (\<lambda>bs. bs) ''e30.e30.signature'') = 16"
    using C5_identity [of "''e30.e30.signature''" "''e30''" "''e30''" "''signature''"
        "''e30.e30.signature''" "''e30''" "''e30''" "''signature''" "\<lambda>bs. bs" "{}"] s4 l
    by auto
  have d: "generateTokenId H ''abc'' = ''abc''" for H
    using C5_identity [of "''abc''" "[]" "[]" "[]" "''abc''" "[]" "[]" "[]" H "{}"] s5
    by simp
  have a1: "generateTokenId H ''aGVhZA.e30.sig'' = digest16 H ''e30.sig''"
    and a2: "generateTokenId H ''aGVhZA.e30.sig'' = generateTokenId H ''e30.e30.sig''"
    and a3: "length (generateTokenId H ''aGVhZA.e30.sig'') \<le> 16" for H
    using a [of H] by blast+
  from s1 s2 s3 s4 s5 inj b l c a1 a2 a3 d show ?thesis
    by blast
qed

section \<open>Properties of the upsert\<close>

lemma findIndex_None_iff: "findIndex p xs = None \<longleftrightarrow> (\<forall>x \<in> set xs. \<not> p x)"
  by (induction xs) auto

lemma findIndex_Some:
  "findIndex p xs = Some i \<Longrightarrow> i < length xs \<and> p (xs ! i) \<and> (\<forall>j < i. \<not> p (xs ! j))"
proof (induction xs arbitrary: i)
  case Nil
  then show ?case by simp
next
  case (Cons x xs)
  show ?case
  proof (cases "p x")
    case True
    with Cons.prems show ?thesis by simp
  next
    case False
    with Cons.prems obtain k where k: "findIndex p xs = Some k" "i = Suc k"
      by auto
    from Cons.IH [OF k(1)] False k(2) show ?thesis
      by (auto simp: nth_Cons split: nat.splits)
  qed
qed

lemma findIndex_Cons_hit [simp]: "p x \<Longrightarrow> findIndex p (x # xs) = Some 0"
  by simp

lemma take_cap: "(if length xs > n then take n xs else xs) = take n xs"
  by simp

lemma touched_eq:
  "(let g1 = g\<lparr>requests := requests g @ [req], lastSeen := timestamp req\<rparr>;
        g2 = (case parseJWT J token of
                Some parsed \<Rightarrow> g1\<lparr>isExpired := isTokenExpired now (ParsedJWT.payload parsed)\<rparr>
              | None \<Rightarrow> g1);
        g3 = (if length (requests g2) > 50
              then g2\<lparr>requests := take 50 (sort_js newest_first (requests g2))\<rparr>
              else g2)
    in g3) = touched J now token req g"
  by (cases "parseJWT J token")
     (auto simp: touched_def pushed_def Let_def intro!: JWTTokenGroup.equality)

lemma storeTokenData_existing:
  assumes "findIndex (\<lambda>g. tokenId g = generateTokenId H token) (tokenGroups st) = Some i"
  shows "storeTokenData H J now token req st
         = st\<lparr>tokenGroups := take MAX_TOKEN_GROUPS
                 ((tokenGroups st)[i := touched J now token req (tokenGroups st ! i)])\<rparr>"
  using assms touched_eq [where g = "tokenGroups st ! i" and req = req and J = J and token = token and now = now]
  by (simp add: storeTokenData_def take_cap del: Let_def) (simp add: Let_def)

lemma storeTokenData_new:
  assumes "findIndex (\<lambda>g. tokenId g = generateTokenId H token) (tokenGroups st) = None"
    and "createTokenGroup H J now token req = Some ng"
  shows "storeTokenData H J now token req st
         = st\<lparr>tokenGroups := take MAX_TOKEN_GROUPS (ng # tokenGroups st)\<rparr>"
  using assms
  by (simp add: storeTokenData_def Let_def take_cap)

lemma storeTokenData_dropped:
  assumes "findIndex (\<lambda>g. tokenId g = generateTokenId H token) (tokenGroups st) = None"
    and "parseJWT J token = None"
  shows "storeTokenData H J now token req st
         = st\<lparr>tokenGroups := take MAX_TOKEN_GROUPS (tokenGroups st)\<rparr>"
  using assms
  by (simp add: storeTokenData_def Let_def take_cap createTokenGroup_def)

lemma createTokenGroup_Some:
  "parseJWT J token = Some parsed \<Longrightarrow>
   \<exists>ng. createTokenGroup H J now token req = Some ng
      \<and> tokenId ng = generateTokenId H token \<and> raw ng = token
      \<and> requests ng = [req] \<and> firstSeen ng = timestamp req \<and> lastSeen ng = timestamp req
      \<and> payload ng = ParsedJWT.payload parsed
      \<and> expiryDate ng = getExpiryDate (ParsedJWT.payload parsed)
      \<and> isExpired ng = isTokenExpired now (ParsedJWT.payload parsed)"
  by (simp add: createTokenGroup_def)

lemma createTokenGroup_None_iff:
  "createTokenGroup H J now token req = None \<longleftrightarrow> parseJWT J token = None"
  by (simp add: createTokenGroup_def split: option.splits)

lemma touched_simps [simp]:
  "tokenId (touched J now token req g) = tokenId g"
  "requests (touched J now token req g) = pushed (requests g) req"
  "lastSeen (touched J now token req g) = timestamp req"
  "firstSeen (touched J now token req g) = firstSeen g"
  "payload (touched J now token req g) = payload g"
  "expiryDate (touched J now token req g) = expiryDate g"
  "raw (touched J now token req g) = raw g"
  by (simp_all add: touched_def)

lemma length_storeTokenData: "length (tokenGroups (storeTokenData H J now token req st)) \<le> MAX_TOKEN_GROUPS"
  by (cases "findIndex (\<lambda>g. tokenId g = generateTokenId H token) (tokenGroups st)";
      cases "createTokenGroup H J now token req")
     (simp_all add: storeTokenData_existing storeTokenData_new storeTokenData_dropped
        createTokenGroup_None_iff)

lemma take_append_take: "take n (xs @ take n ys) = take n (xs @ ys)"
  by (simp add: min_def) 

lemma storeTokenData_fresh_ids:
  assumes "generateTokenId H token \<notin> set (map tokenId (tokenGroups st))"
    and "parseJWT J token \<noteq> None"
  shows "map tokenId (tokenGroups (storeTokenData H J now token req st))
         = take MAX_TOKEN_GROUPS (generateTokenId H token # map tokenId (tokenGroups st))"
proof -
  from assms(1) have "\<forall>g \<in> set (tokenGroups st). tokenId g \<noteq> generateTokenId H token"
    by (metis image_eqI set_map)
  then have f: "findIndex (\<lambda>g. tokenId g = generateTokenId H token) (tokenGroups st) = None"
    by (simp add: findIndex_None_iff)
  from assms(2) obtain parsed where "parseJWT J token = Some parsed" by auto
  from createTokenGroup_Some [OF this, of H now req]
  obtain ng where ng: "createTokenGroup H J now token req = Some ng"
    "tokenId ng = generateTokenId H token" by blast
  show ?thesis
    by (simp add: storeTokenData_new [OF f ng(1)] ng(2) flip: take_map)
qed

lemma upserts_fresh_ids:
  assumes "distinct (map (entry_id H) es)"
    and "\<forall>e \<in> set es. parseJWT J (fst (snd e)) \<noteq> None"
    and "set (map (entry_id H) es) \<inter> set (map tokenId (tokenGroups st)) = {}"
    and "length (tokenGroups st) \<le> MAX_TOKEN_GROUPS"
  shows "map tokenId (tokenGroups (upserts H J es st))
         = take MAX_TOKEN_GROUPS (rev (map (entry_id H) es) @ map tokenId (tokenGroups st))"
  using assms
proof (induction es arbitrary: st)
  case Nil
  then show ?case by simp
next
  case (Cons e es)
  obtain now token req where e: "e = (now, token, req)"
    by (cases e) auto
  let ?st = "storeTokenData H J now token req st"
  have id: "entry_id H e = generateTokenId H token"
    by (simp add: entry_id_def e)
  from Cons.prems have fresh: "generateTokenId H token \<notin> set (map tokenId (tokenGroups st))"
    and ok: "parseJWT J token \<noteq> None"
    by (auto simp: id [symmetric] e)
  have ids: "map tokenId (tokenGroups ?st)
             = take MAX_TOKEN_GROUPS (generateTokenId H token # map tokenId (tokenGroups st))"
    by (rule storeTokenData_fresh_ids [OF fresh ok])
  have dis: "set (map (entry_id H) es) \<inter> set (map tokenId (tokenGroups ?st)) = {}"
  proof -
    have "set (map tokenId (tokenGroups ?st))
          \<subseteq> insert (entry_id H e) (set (map tokenId (tokenGroups st)))"
      unfolding ids id using set_take_subset by fastforce
    moreover from Cons.prems(1) have "entry_id H e \<notin> set (map (entry_id H) es)"
      by simp
    moreover from Cons.prems(3) have "set (map (entry_id H) es) \<inter> set (map tokenId (tokenGroups st)) = {}"
      by auto
    ultimately show ?thesis by blast
  qed
  from Cons.prems have d: "distinct (map (entry_id H) es)"
    and a: "\<forall>e \<in> set es. parseJWT J (fst (snd e)) \<noteq> None"
    by simp_all
  have len: "length (tokenGroups ?st) \<le> MAX_TOKEN_GROUPS"
    by (rule length_storeTokenData)
  have "map tokenId (tokenGroups (upserts H J es ?st))
      = take MAX_TOKEN_GROUPS (rev (map (entry_id H) es) @ map tokenId (tokenGroups ?st))"
    by (rule Cons.IH [OF d a dis len])
  then show ?case
    by (simp add: e ids take_append_take id [unfolded e])
qed

lemma upserts_fresh_ids_nonempty:
  assumes "distinct (map (entry_id H) es)"
    and "\<forall>e \<in> set es. parseJWT J (fst (snd e)) \<noteq> None"
    and "set (map (entry_id H) es) \<inter> set (map tokenId (tokenGroups st)) = {}"
    and "es \<noteq> []"
  shows "map tokenId (tokenGroups (upserts H J es st))
         = take MAX_TOKEN_GROUPS (rev (map (entry_id H) es) @ map tokenId (tokenGroups st))"
proof -
  from assms(4) obtain e es' where es: "es = e # es'"
    by (cases es) auto
  obtain now token req where e: "e = (now, token, req)"
    by (cases e) auto
  let ?st = "storeTokenData H J now token req st"
  have id: "entry_id H e = generateTokenId H token"
    by (simp add: entry_id_def e)
  from assms(1-3) have fresh: "generateTokenId H token \<notin> set (map tokenId (tokenGroups st))"
    and ok: "parseJWT J token \<noteq> None"
    by (auto simp: id [symmetric] e es)
  have ids: "map tokenId (tokenGroups ?st)
             = take MAX_TOKEN_GROUPS (generateTokenId H token # map tokenId (tokenGroups st))"
    by (rule storeTokenData_fresh_ids [OF fresh ok])
  have dis: "set (map (entry_id H) es') \<inter> set (map tokenId (tokenGroups ?st)) = {}"
  proof -
    have "set (map tokenId (tokenGroups ?st))
          \<subseteq> insert (entry_id H e) (set (map tokenId (tokenGroups st)))"
      unfolding ids id using set_take_subset by fastforce
    moreover from assms(1) have "entry_id H e \<notin> set (map (entry_id H) es')"
      by (simp add: es)
    moreover from assms(3) have "set (map (entry_id H) es') \<inter> set (map tokenId (tokenGroups st)) = {}"
      by (auto simp: es)
    ultimately show ?thesis by blast
  qed
  from assms(1,2) have d: "distinct (map (entry_id H) es')"
    and a: "\<forall>e \<in> set es'. parseJWT J (fst (snd e)) \<noteq> None"
    by (simp_all add: es)
  have len: "length (tokenGroups ?st) \<le> MAX_TOKEN_GROUPS"
    by (rule length_storeTokenData)
  have "map tokenId (tokenGroups (upserts H J es' ?st))
      = take MAX_TOKEN_GROUPS (rev (map (entry_id H) es') @ map tokenId (tokenGroups ?st))"
    by (rule upserts_fresh_ids [OF d a dis len])
  then show ?thesis
    by (simp add: es e ids take_append_take id [unfolded e])
qed

subsection \<open>C2: the cap on the number of groups\<close>

text \<open>
  C2. Take any run of more than one hundred upserts whose tokens decode and have
  identities that differ from one another and from those the store holds. Afterwards
  the store holds exactly one hundred groups: those of the last hundred upserts of the
  run, the latest first. Nothing is asked of the expiry or of the requests of the
  groups that are dropped.
\<close>

theorem C2_group_cap:
  assumes "distinct (map (entry_id H) es)"
    and "\<forall>e \<in> set es. parseJWT J (fst (snd e)) \<noteq> None"
    and "set (map (entry_id H) es) \<inter> set (map tokenId (tokenGroups st)) = {}"
    and "length es > 100"
  shows "length (tokenGroups (upserts H J es st)) = 100
     \<and> map tokenId (tokenGroups (upserts H J es st)) = take 100 (rev (map (entry_id H) es))
     \<and> map tokenId (tokenGroups (upserts H J es st))
         = rev (drop (length es - 100) (map (entry_id H) es))"
proof -
  from assms(4) have ne: "es \<noteq> []" by auto
  have "map tokenId (tokenGroups (upserts H J es st))
      = take 100 (rev (map (entry_id H) es) @ map tokenId (tokenGroups st))"
    using upserts_fresh_ids_nonempty [OF assms(1-3) ne] by (simp add: MAX_TOKEN_GROUPS_def)
  with assms(4) have ids: "map tokenId (tokenGroups (upserts H J es st))
      = take 100 (rev (map (entry_id H) es))"
    by simp
  then have "length (map tokenId (tokenGroups (upserts H J es st))) = 100"
    using assms(4) by simp
  then have len: "length (tokenGroups (upserts H J es st)) = 100"
    by simp
  have "take 100 (rev (map (entry_id H) es)) = rev (drop (length es - 100) (map (entry_id H) es))"
    by (simp add: take_rev)
  with ids len show ?thesis by simp
qed

subsection \<open>The concrete tokens have different identities\<close>

lemma hex_digit_inj: "a < 16 \<Longrightarrow> b < 16 \<Longrightarrow> hex_digit a = hex_digit b \<Longrightarrow> a = b"
proof -
  assume a: "a < 16" and b: "b < 16" and e: "hex_digit a = hex_digit b"
  have d: "distinct ''0123456789abcdef''" by simp
  have l: "length ''0123456789abcdef'' = 16" by simp
  from a b e have "''0123456789abcdef'' ! a = ''0123456789abcdef'' ! b"
    by (simp add: hex_digit_def)
  with d a b l show "a = b"
    by (metis nth_eq_iff_index_eq)
qed

lemma hex_byte_inj: "hex_byte b = hex_byte c \<Longrightarrow> b = c"
proof -
  assume e: "hex_byte b = hex_byte c"
  have lb: "unat b < 256" and lc: "unat c < 256"
    using unsigned_less [of b] unsigned_less [of c] by simp_all
  then have r: "unat b div 16 < 16" "unat c div 16 < 16"
    by simp_all
  have m: "unat b mod 16 < 16" "unat c mod 16 < 16"
    by simp_all
  from e have "hex_digit (unat b div 16) = hex_digit (unat c div 16)"
    and "hex_digit (unat b mod 16) = hex_digit (unat c mod 16)"
    by (simp_all add: hex_byte_def)
  then have "unat b div 16 = unat c div 16" "unat b mod 16 = unat c mod 16"
    using hex_digit_inj [OF r] hex_digit_inj [OF m] by blast+
  then have "unat b = unat c"
    by (metis div_mult_mod_eq)
  then show "b = c" by (simp add: word_unat_eq_iff)
qed

lemma length_hex_byte [simp]: "length (hex_byte b) = 2"
  by (simp add: hex_byte_def)

lemma concat_hex_inj: "concat (map hex_byte bs) = concat (map hex_byte cs) \<Longrightarrow> bs = cs"
proof (induction bs arbitrary: cs)
  case Nil
  then show ?case by (cases cs) (auto simp: hex_byte_def)
next
  case (Cons b bs)
  then obtain c cs' where cs: "cs = c # cs'"
    by (cases cs) (auto simp: hex_byte_def)
  with Cons.prems have "hex_byte b @ concat (map hex_byte bs) = hex_byte c @ concat (map hex_byte cs')"
    by simp
  then have "hex_byte b = hex_byte c \<and> concat (map hex_byte bs) = concat (map hex_byte cs')"
    by (intro append_eq_append_conv [THEN iffD1]) simp_all
  with Cons.IH cs show ?case
    by (auto dest: hex_byte_inj)
qed

lemma utf8_encode_ascii:
  "\<forall>c \<in> set s. (of_char c :: nat) < 128 \<Longrightarrow> utf8_encode s = map (\<lambda>c. of_nat (of_char c)) s"
  by (induction s) (auto simp: utf8_encode_def)

lemma byte_of_char_inj: "(of_nat (of_char c) :: 8 word) = of_nat (of_char d) \<Longrightarrow> c = d"
proof -
  assume "(of_nat (of_char c) :: 8 word) = of_nat (of_char d)"
  then have "unat (of_nat (of_char c) :: 8 word) = unat (of_nat (of_char d) :: 8 word)"
    by simp
  moreover have "(of_char c :: nat) < 256" "(of_char d :: nat) < 256"
    by (simp_all add: of_char_def) 
  ultimately have "(of_char c :: nat) = of_char d"
    by (simp add: unat_of_nat)
  then show "c = d" by simp
qed

lemma digest16_identity_inj:
  assumes "\<forall>c \<in> set s. (of_char c :: nat) < 128" "\<forall>c \<in> set t. (of_char c :: nat) < 128"
    and "length s \<le> 8" "length t \<le> 8"
    and "digest16 (\<lambda>bs. bs) s = digest16 (\<lambda>bs. bs) t"
  shows "s = t"
proof -
  have "digest16 (\<lambda>bs. bs) u = concat (map hex_byte (map (\<lambda>c. of_nat (of_char c)) u))"
    if "\<forall>c \<in> set u. (of_char c :: nat) < 128" "length u \<le> 8" for u
  proof -
    have "length (concat (map hex_byte (map (\<lambda>c. of_nat (of_char c) :: 8 word) u))) \<le> 16"
      using that(2) by (simp only: length_hex_concat length_map)
    with that(1) show ?thesis
      by (simp add: digest16_def utf8_encode_ascii del: map_map)
  qed
  note d = this
  have "concat (map hex_byte (map (\<lambda>c. of_nat (of_char c) :: 8 word) s))
      = concat (map hex_byte (map (\<lambda>c. of_nat (of_char c)) t))"
    using assms(5) unfolding d [OF assms(1,3)] d [OF assms(2,4)] .
  then have "map (\<lambda>c. of_nat (of_char c) :: 8 word) s = map (\<lambda>c. of_nat (of_char c)) t"
    by (rule concat_hex_inj)
  then show ?thesis
    by (auto simp: inj_on_def dest!: map_inj_on [where f = "\<lambda>c. of_nat (of_char c) :: 8 word"] byte_of_char_inj)
qed

lemma three_digits: "(n :: nat) = (n div 100) * 100 + (n div 10 mod 10) * 10 + n mod 10"
proof -
  define q where "q = n div 10"
  have 1: "n = q * 10 + n mod 10"
    by (simp add: q_def)
  have "q div 10 = n div 100"
    by (simp add: q_def div_mult2_eq)
  then have 2: "q = (n div 100) * 10 + q mod 10"
    by (metis div_mult_mod_eq)
  have "n = ((n div 100) * 10 + q mod 10) * 10 + n mod 10"
    using 1 2 by simp
  then show ?thesis
    by (simp add: q_def algebra_simps)
qed

lemma digit_char_code: "a < 10 \<Longrightarrow> (of_char (char_of (48 + a :: nat)) :: nat) = 48 + a"
  by (simp only: of_char_of) simp

lemma digit_char_inj:
  "a < 10 \<Longrightarrow> b < 10 \<Longrightarrow> (char_of (48 + a :: nat) :: char) = char_of (48 + b) \<Longrightarrow> a = b"
proof -
  assume a: "a < 10" and b: "b < 10"
    and e: "(char_of (48 + a :: nat) :: char) = char_of (48 + b)"
  have "(of_char (char_of (48 + a :: nat) :: char) :: nat) = of_char (char_of (48 + b) :: char)"
    by (simp only: e)
  then have "48 + a = 48 + b"
    by (simp only: digit_char_code [OF a] digit_char_code [OF b])
  then show "a = b"
    by (simp only: add_left_cancel)
qed

lemma digits3_inj: "n < 1000 \<Longrightarrow> m < 1000 \<Longrightarrow> digits3 n = digits3 m \<Longrightarrow> n = m"
proof -
  assume n: "n < 1000" and m: "m < 1000" and e: "digits3 n = digits3 m"
  have lt: "a mod 10 < 10" for a :: nat
    by simp
  from e have "(char_of (48 + n div 100 mod 10) :: char) = char_of (48 + m div 100 mod 10)"
    and "(char_of (48 + n div 10 mod 10) :: char) = char_of (48 + m div 10 mod 10)"
    and "(char_of (48 + n mod 10) :: char) = char_of (48 + m mod 10)"
    by (simp_all only: digits3_def list.inject)
  then have d: "n div 100 mod 10 = m div 100 mod 10" "n div 10 mod 10 = m div 10 mod 10"
    "n mod 10 = m mod 10"
    by (blast intro: digit_char_inj [OF lt lt])+
  from n m have "n div 100 < 10" "m div 100 < 10"
    by simp_all
  with d(1) have "n div 100 = m div 100"
    by simp
  with d(2,3) three_digits [of n] three_digits [of m] show "n = m"
    by simp
qed

lemma digits3_chars: "c \<in> set (digits3 n) \<Longrightarrow> 48 \<le> (of_char c :: nat) \<and> (of_char c :: nat) \<le> 57"
proof -
  have lt: "a mod 10 < 10" for a :: nat
    by simp
  assume "c \<in> set (digits3 n)"
  then have "\<exists>a < 10. c = char_of (48 + a :: nat)"
    using lt by (auto simp only: digits3_def set_simps insert_iff empty_iff)
  then obtain a :: nat where a: "a < 10" "c = char_of (48 + a)"
    by blast
  from digit_char_code [OF a(1)] a show ?thesis
    by simp
qed

lemma digits3_no_dot: "CHR ''.'' \<notin> set (digits3 n)"
  using digits3_chars [of "CHR ''.''" n] by auto

lemma js_split_example_token:
  "js_split CHR ''.'' (example_token n) = [''e30'', ''e30'', digits3 n]"
proof -
  have "js_split CHR ''.'' (''e30'' @ CHR ''.'' # ''e30'' @ CHR ''.'' # digits3 n) = [''e30'', ''e30'', digits3 n]"
    by (intro js_split3) (simp_all add: digits3_no_dot)
  then show ?thesis by (simp add: example_token_def)
qed

lemma parseJWT_example_token:
  "parseJWT JSON_fragment (example_token n)
     = Some \<lparr>ParsedJWT.header = JObject [], ParsedJWT.payload = JObject [],
             ParsedJWT.signature = digits3 n\<rparr>"
  unfolding example_token_def by (rule parseJWT_e30) (rule digits3_no_dot)

lemma entry_id_example: "entry_id H (example_upsert n) = digest16 H (''e30.'' @ digits3 n)"
  by (simp add: entry_id_def example_upsert_def generateTokenId_parts [OF js_split_example_token])

lemma entry_id_example_inj: "inj_on (\<lambda>n. entry_id (\<lambda>bs. bs) (example_upsert n)) {..<1000}"
proof (rule inj_onI)
  fix n m :: nat
  assume n: "n \<in> {..<1000}" and m: "m \<in> {..<1000}"
    and e: "entry_id (\<lambda>bs. bs) (example_upsert n) = entry_id (\<lambda>bs. bs) (example_upsert m)"
  have a: "\<forall>c \<in> set (''e30.'' @ digits3 k). (of_char c :: nat) < 128" for k
  proof
    fix c assume "c \<in> set (''e30.'' @ digits3 k)"
    then consider "c \<in> set ''e30.''" | "c \<in> set (digits3 k)"
      by (auto simp only: set_append Un_iff)
    then show "(of_char c :: nat) < 128"
    proof cases
      case 1
      then show ?thesis by auto
    next
      case 2
      from digits3_chars [OF this] show ?thesis by linarith
    qed
  qed
  have "length (digits3 k) = 3" for k
    by (simp only: digits3_def list.size)
  then have l: "length (''e30.'' @ digits3 k) \<le> 8" for k
    by (simp only: length_append) simp
  from e have "''e30.'' @ digits3 n = ''e30.'' @ digits3 m"
    unfolding entry_id_example by (rule digest16_identity_inj [OF a a l l])
  then have "digits3 n = digits3 m"
    by (simp only: same_append_eq)
  moreover from n m have "n < 1000" "m < 1000"
    by simp_all
  ultimately show "n = m"
    by (intro digits3_inj)
qed

lemma example_ids_distinct:
  "j \<le> 1000 \<Longrightarrow> distinct (map (entry_id (\<lambda>bs. bs)) (map example_upsert [i..<j]))"
proof -
  assume "j \<le> 1000"
  then have "inj_on (\<lambda>n. entry_id (\<lambda>bs. bs) (example_upsert n)) (set [i..<j])"
    by (intro inj_on_subset [OF entry_id_example_inj]) auto
  then show ?thesis
    by (simp add: distinct_map comp_def)
qed

theorem C2_group_cap_witness:
  "distinct (map (entry_id (\<lambda>bs. bs)) (map example_upsert [100..<201]))
   \<and> list_all (\<lambda>e. parseJWT JSON_fragment (fst (snd e)) \<noteq> None) (map example_upsert [100..<201])
   \<and> set (map (entry_id (\<lambda>bs. bs)) (map example_upsert [100..<201]))
        \<inter> set (map tokenId (tokenGroups empty_storage)) = {}
   \<and> length (map example_upsert [100..<201]) > 100
   \<and> length (tokenGroups (upserts (\<lambda>bs. bs) JSON_fragment (map example_upsert [100..<201]) empty_storage)) = 100
   \<and> map tokenId (tokenGroups (upserts (\<lambda>bs. bs) JSON_fragment (map example_upsert [100..<201]) empty_storage))
       = take 100 (rev (map (entry_id (\<lambda>bs. bs)) (map example_upsert [100..<201])))
   \<and> map tokenId (tokenGroups (upserts (\<lambda>bs. bs) JSON_fragment (map example_upsert [100..<201]) empty_storage))
       = rev (drop (length (map example_upsert [100..<201]) - 100)
               (map (entry_id (\<lambda>bs. bs)) (map example_upsert [100..<201])))"
proof -
  define es where "es = map example_upsert [100..<201]"
  have d: "distinct (map (entry_id (\<lambda>bs. bs)) es)"
    unfolding es_def by (rule example_ids_distinct) simp
  have "parseJWT JSON_fragment (fst (snd (example_upsert n))) \<noteq> None" for n
    by (simp add: example_upsert_def parseJWT_example_token)
  then have p: "\<forall>e \<in> set es. parseJWT JSON_fragment (fst (snd e)) \<noteq> None"
    unfolding es_def by (simp only: set_map ball_simps) blast
  have f: "set (map (entry_id (\<lambda>bs. bs)) es) \<inter> set (map tokenId (tokenGroups empty_storage)) = {}"
    by (simp add: empty_storage_def)
  have l: "length es > 100"
    unfolding es_def by (simp only: length_map length_upt) 
  from p have p': "list_all (\<lambda>e. parseJWT JSON_fragment (fst (snd e)) \<noteq> None) es"
    by (simp only: list_all_iff)
  from C2_group_cap [OF d p f l] d p' f l show ?thesis
    unfolding es_def by blast
qed

section \<open>Properties of the request list of a group\<close>

lemma mset_insort_js: "mset (insort_js c x ys) = add_mset x (mset ys)"
  by (induction ys) auto

lemma mset_sort_js: "mset (sort_js c xs) = mset xs"
  by (induction xs) (auto simp: sort_js_def mset_insort_js)

lemma set_sort_js: "set (sort_js c xs) = set xs"
  by (metis mset_sort_js set_mset_mset)

lemma length_sort_js: "length (sort_js c xs) = length xs"
  by (metis mset_sort_js size_mset)

lemma sort_js_Cons: "sort_js c (x # xs) = insort_js c x (sort_js c xs)"
  by (simp add: sort_js_def)

lemma newest_first_positive:
  "valid_request x \<Longrightarrow> valid_request y \<Longrightarrow>
   num_greater (sort_compare newest_first x y) (Fin 0) \<longleftrightarrow> time_of x < time_of y"
  by (cases "timestamp x"; cases "timestamp y")
     (simp_all add: valid_request_def time_of_def sort_compare_def newest_first_def getTime_def
        isNaN_def num_greater_def Let_def)

lemma sorted_insort_js:
  "valid_request x \<Longrightarrow> \<forall>y \<in> set ys. valid_request y \<Longrightarrow> newest_first_sorted ys \<Longrightarrow>
   newest_first_sorted (insort_js newest_first x ys)"
proof (induction ys)
  case Nil
  then show ?case by (simp add: newest_first_sorted_def)
next
  case (Cons y ys)
  then have v: "valid_request y" and s: "newest_first_sorted ys"
    and t: "\<forall>z \<in> set ys. time_of z \<le> time_of y"
    by (auto simp: newest_first_sorted_def)
  show ?case
  proof (cases "time_of x < time_of y")
    case True
    have "set (insort_js newest_first x ys) = insert x (set ys)"
      by (metis mset_insort_js set_mset_add_mset_insert set_mset_mset)
    with True t Cons show ?thesis
      by (auto simp: newest_first_positive v newest_first_sorted_def)
  next
    case False
    with Cons.prems t show ?thesis
      by (auto simp: newest_first_positive v newest_first_sorted_def)
  qed
qed

lemma sorted_sort_js:
  "\<forall>r \<in> set xs. valid_request r \<Longrightarrow> newest_first_sorted (sort_js newest_first xs)"
proof (induction xs)
  case Nil
  then show ?case by (simp add: sort_js_def newest_first_sorted_def)
next
  case (Cons x xs)
  then show ?case
    by (simp add: sort_js_Cons sorted_insort_js set_sort_js)
qed

lemma insort_js_oldest:
  "valid_request x \<Longrightarrow> \<forall>y \<in> set ys. valid_request y \<and> time_of x < time_of y \<Longrightarrow>
   insort_js newest_first x ys = ys @ [x]"
  by (induction ys) (auto simp: newest_first_positive)

lemma sort_js_ascending:
  "\<forall>r \<in> set xs. valid_request r \<Longrightarrow> sorted_wrt (\<lambda>a b. time_of a < time_of b) xs \<Longrightarrow>
   sort_js newest_first xs = rev xs"
proof (induction xs)
  case Nil
  then show ?case by (simp add: sort_js_def)
next
  case (Cons x xs)
  then have "sort_js newest_first xs = rev xs" by simp
  moreover from Cons.prems have "insort_js newest_first x (rev xs) = rev xs @ [x]"
    by (intro insort_js_oldest) auto
  ultimately show ?case
    by (simp add: sort_js_Cons)
qed

lemma pushed_short: "length rs < 50 \<Longrightarrow> pushed rs r = rs @ [r]"
  by (simp add: pushed_def)

lemma pushed_full:
  "50 \<le> length rs \<Longrightarrow> pushed rs r = take 50 (sort_js newest_first (rs @ [r]))"
  by (simp add: pushed_def)

lemma length_pushed: "length (pushed rs r) = min (Suc (length rs)) 50"
  by (simp add: pushed_def length_sort_js)

lemma newest_first_sorted_take: "newest_first_sorted xs \<Longrightarrow> newest_first_sorted (take n xs)"
  by (simp add: newest_first_sorted_def sorted_wrt_take)

lemma pushed_sorted:
  "50 \<le> length rs \<Longrightarrow> \<forall>x \<in> set (rs @ [r]). valid_request x \<Longrightarrow> newest_first_sorted (pushed rs r)"
  by (simp only: pushed_full) (intro newest_first_sorted_take sorted_sort_js)

lemma pushed_most_recent:
  assumes v: "\<forall>x \<in> set (seen @ [r]). valid_request x"
    and m: "most_recent_of kept seen"
    and l: "length kept = min (length seen) 50"
  shows "most_recent_of (pushed kept r) (seen @ [r])
         \<and> length (pushed kept r) = min (length (seen @ [r])) 50"
proof
  show "length (pushed kept r) = min (length (seen @ [r])) 50"
    using l by (simp add: length_pushed)
  from m have sub: "mset kept \<subseteq># mset seen"
    and old: "\<forall>d \<in># mset seen - mset kept. \<forall>k \<in> set kept. time_of d \<le> time_of k"
    by (simp_all add: most_recent_of_def)
  show "most_recent_of (pushed kept r) (seen @ [r])"
  proof (cases "length kept < 50")
    case True
    with l have "size (mset seen - mset kept) = 0"
      using size_Diff_submset [OF sub] by simp
    then have "mset seen - mset kept = {#}"
      by simp
    with sub True show ?thesis
      by (simp add: most_recent_of_def pushed_short)
  next
    case False
    with l have l50: "length kept = 50" by simp
    define S where "S = sort_js newest_first (kept @ [r])"
    have p: "pushed kept r = take 50 S"
      using l50 by (simp add: pushed_full S_def)
    have lS: "length S = 51"
      by (simp add: S_def length_sort_js l50)
    then have "length (drop 50 S) = Suc 0"
      by simp
    then obtain x where x: "drop 50 S = [x]"
      by (metis length_Suc_conv length_0_conv)
    then have S: "S = take 50 S @ [x]"
      by (metis append_take_drop_id)
    have mS: "mset S = add_mset r (mset kept)"
      by (simp add: S_def mset_sort_js)
    with S have split: "add_mset r (mset kept) = add_mset x (mset (take 50 S))"
      by (metis mset.simps(2) mset_append union_mset_add_mset_right add.right_neutral mset.simps(1))
    have "set kept \<subseteq> set seen"
      using set_mset_mono [OF sub] by simp
    with v have "\<forall>y \<in> set (kept @ [r]). valid_request y"
      by auto
    then have "newest_first_sorted S"
      unfolding S_def by (rule sorted_sort_js)
    with S have least: "\<forall>k \<in> set (take 50 S). time_of x \<le> time_of k"
      by (metis newest_first_sorted_def sorted_wrt_append list.set_intros(1))
    have sub': "mset (take 50 S) \<subseteq># mset (seen @ [r])"
    proof -
      have "mset (take 50 S) \<subseteq># mset S"
        by (metis S mset_append mset_subset_eq_add_left)
      also have "\<dots> \<subseteq># mset (seen @ [r])"
        using sub by (simp add: mS)
      finally show ?thesis .
    qed
    have dropped: "mset (seen @ [r]) - mset (take 50 S) = add_mset x (mset seen - mset kept)"
    proof -
      have "mset (seen @ [r]) = (mset seen - mset kept) + add_mset r (mset kept)"
        using sub by (simp add: subset_mset.diff_add)
      also have "\<dots> = add_mset x (mset seen - mset kept) + mset (take 50 S)"
        by (simp add: split)
      finally show ?thesis by simp
    qed
    have "time_of d \<le> time_of k"
      if d: "d \<in># mset (seen @ [r]) - mset (take 50 S)" and k: "k \<in> set (take 50 S)" for d k
    proof -
      from d dropped consider "d = x" | "d \<in># mset seen - mset kept"
        by auto
      then show ?thesis
      proof cases
        case 1
        with least k show ?thesis by simp
      next
        case 2
        show ?thesis
        proof (cases "x \<in> set kept")
          case True
          with old 2 have "time_of d \<le> time_of x" by blast
          with least k show ?thesis by force
        next
          case False
          have "x \<in># add_mset r (mset kept)"
            unfolding split by simp
          with False have "x = r" by auto
          with split have "mset (take 50 S) = mset kept" by simp
          with k have "k \<in> set kept"
            by (metis set_mset_mset)
          with old 2 show ?thesis by blast
        qed
      qed
    qed
    with sub' show ?thesis
      by (simp add: most_recent_of_def p)
  qed
qed

lemma foldl_pushed_most_recent:
  assumes "\<forall>x \<in> set (seen @ rs). valid_request x"
    and "most_recent_of kept seen"
    and "length kept = min (length seen) 50"
  shows "most_recent_of (foldl pushed kept rs) (seen @ rs)
         \<and> length (foldl pushed kept rs) = min (length (seen @ rs)) 50"
  using assms
proof (induction rs arbitrary: kept seen)
  case Nil
  then show ?case by simp
next
  case (Cons r rs)
  from Cons.prems have v: "\<forall>x \<in> set (seen @ [r]). valid_request x"
    by auto
  from pushed_most_recent [OF v Cons.prems(2,3)]
  have "most_recent_of (pushed kept r) (seen @ [r])"
    "length (pushed kept r) = min (length (seen @ [r])) 50"
    by blast+
  moreover from Cons.prems have "\<forall>x \<in> set ((seen @ [r]) @ rs). valid_request x"
    by auto
  ultimately have "most_recent_of (foldl pushed (pushed kept r) rs) ((seen @ [r]) @ rs)
      \<and> length (foldl pushed (pushed kept r) rs) = min (length ((seen @ [r]) @ rs)) 50"
    by (intro Cons.IH)
  then show ?case by simp
qed

section \<open>Runs of upserts on one group\<close>

lemma storeTokenData_head:
  assumes "tokenGroups st = g # rest" "tokenId g = generateTokenId H token"
    and "length (tokenGroups st) \<le> MAX_TOKEN_GROUPS"
  shows "tokenGroups (storeTokenData H J now token req st) = touched J now token req g # rest"
proof -
  from assms(1,2) have "findIndex (\<lambda>x. tokenId x = generateTokenId H token) (tokenGroups st) = Some 0"
    by simp
  from storeTokenData_existing [OF this] assms(1,3) show ?thesis
    by simp
qed

lemma upserts_head:
  assumes "tokenGroups st = g # rest" "tokenId g = I"
    and "\<forall>e \<in> set es. entry_id H e = I"
    and "length (tokenGroups st) \<le> MAX_TOKEN_GROUPS"
  shows "\<exists>g'. tokenGroups (upserts H J es st) = g' # rest \<and> tokenId g' = I
           \<and> requests g' = foldl pushed (requests g) (map (\<lambda>e. snd (snd e)) es)
           \<and> firstSeen g' = firstSeen g
           \<and> lastSeen g' = (if es = [] then lastSeen g else timestamp (snd (snd (last es))))"
  using assms
proof (induction es arbitrary: st g)
  case Nil
  then show ?case by simp
next
  case (Cons e es)
  obtain now token req where e: "e = (now, token, req)"
    by (cases e) auto
  with Cons.prems have id: "generateTokenId H token = I"
    by (simp add: entry_id_def)
  let ?st = "storeTokenData H J now token req st"
  let ?g = "touched J now token req g"
  have h: "tokenGroups ?st = ?g # rest"
    using Cons.prems(1,2,4) id by (intro storeTokenData_head) simp_all
  have "\<exists>g'. tokenGroups (upserts H J es ?st) = g' # rest \<and> tokenId g' = I
           \<and> requests g' = foldl pushed (requests ?g) (map (\<lambda>e. snd (snd e)) es)
           \<and> firstSeen g' = firstSeen ?g
           \<and> lastSeen g' = (if es = [] then lastSeen ?g else timestamp (snd (snd (last es))))"
    using Cons.prems(2,3) h length_storeTokenData [of H J now token req st]
    by (intro Cons.IH) simp_all
  then show ?case
    by (auto simp: e)
qed

lemma most_recent_of_self: "most_recent_of rs rs"
  by (simp add: most_recent_of_def)

lemma upserts_fresh_same:
  assumes fresh: "I \<notin> set (map tokenId (tokenGroups st))"
    and ids: "\<forall>e \<in> set (e1 # es). entry_id H e = I"
    and dec: "parseJWT J (fst (snd e1)) \<noteq> None"
  shows "\<exists>g'. tokenGroups (upserts H J (e1 # es) st) = g' # take (MAX_TOKEN_GROUPS - 1) (tokenGroups st)
           \<and> tokenId g' = I
           \<and> requests g' = foldl pushed [snd (snd e1)] (map (\<lambda>e. snd (snd e)) es)
           \<and> firstSeen g' = timestamp (snd (snd e1))
           \<and> lastSeen g' = timestamp (snd (snd (last (e1 # es))))"
proof -
  obtain now token req where e: "e1 = (now, token, req)"
    by (cases e1) auto
  with ids have id: "generateTokenId H token = I"
    by (simp add: entry_id_def)
  let ?st = "storeTokenData H J now token req st"
  from fresh have "\<forall>g \<in> set (tokenGroups st). tokenId g \<noteq> generateTokenId H token"
    unfolding id by (metis image_eqI set_map)
  then have f: "findIndex (\<lambda>g. tokenId g = generateTokenId H token) (tokenGroups st) = None"
    by (simp add: findIndex_None_iff)
  from dec e obtain parsed where "parseJWT J token = Some parsed" by auto
  from createTokenGroup_Some [OF this, of H now req]
  obtain ng where ng: "createTokenGroup H J now token req = Some ng"
    "tokenId ng = generateTokenId H token" "requests ng = [req]"
    "firstSeen ng = timestamp req" "lastSeen ng = timestamp req"
    by blast
  have h: "tokenGroups ?st = ng # take (MAX_TOKEN_GROUPS - 1) (tokenGroups st)"
    by (simp add: storeTokenData_new [OF f ng(1)] MAX_TOKEN_GROUPS_def)
  from ids have ids': "\<forall>e \<in> set es. entry_id H e = I"
    by simp
  from upserts_head [OF h _ ids' length_storeTokenData, of J] ng(2) id
  obtain g' where "tokenGroups (upserts H J es ?st) = g' # take (MAX_TOKEN_GROUPS - 1) (tokenGroups st)"
    "tokenId g' = I"
    "requests g' = foldl pushed (requests ng) (map (\<lambda>e. snd (snd e)) es)"
    "firstSeen g' = firstSeen ng"
    "lastSeen g' = (if es = [] then lastSeen ng else timestamp (snd (snd (last es))))"
    by auto
  with ng e show ?thesis
    by auto
qed

subsection \<open>C7: the cap on the requests of a group\<close>

text \<open>
  C7. Take a store that has no group of the identity \<open>I\<close>, and a run of fifty or more
  upserts (sixty in the claim) whose tokens all have the identity \<open>I\<close> and decode, with
  requests observed at valid instants. Afterwards the group of \<open>I\<close> is the first of the
  store and the only one of that identity, it holds exactly fifty requests, and they
  are the most recent of the run: each is one of the requests of the run, and no request
  of the run that is missing is more recent than one that is held.
\<close>

theorem C7_request_cap:
  assumes "I \<notin> set (map tokenId (tokenGroups st))"
    and "\<forall>e \<in> set es. entry_id H e = I"
    and "\<forall>e \<in> set es. parseJWT J (fst (snd e)) \<noteq> None"
    and "\<forall>e \<in> set es. valid_request (snd (snd e))"
    and "50 \<le> length es"
  shows "\<exists>g rest. tokenGroups (upserts H J es st) = g # rest
           \<and> tokenId g = I \<and> I \<notin> set (map tokenId rest)
           \<and> length (requests g) = 50
           \<and> most_recent_of (requests g) (map (\<lambda>e. snd (snd e)) es)"
proof -
  from assms(5) obtain e1 es' where es: "es = e1 # es'"
    by (cases es) auto
  from assms(2,3) have ids: "\<forall>e \<in> set (e1 # es'). entry_id H e = I"
    and dec: "parseJWT J (fst (snd e1)) \<noteq> None"
    by (simp_all add: es)
  from upserts_fresh_same [OF assms(1) ids dec]
  obtain g where g: "tokenGroups (upserts H J es st) = g # take (MAX_TOKEN_GROUPS - 1) (tokenGroups st)"
    "tokenId g = I"
    "requests g = foldl pushed [snd (snd e1)] (map (\<lambda>e. snd (snd e)) es')"
    unfolding es by blast
  have v: "\<forall>x \<in> set ([snd (snd e1)] @ map (\<lambda>e. snd (snd e)) es'). valid_request x"
    using assms(4) by (auto simp: es)
  have "most_recent_of (requests g) ([snd (snd e1)] @ map (\<lambda>e. snd (snd e)) es')
      \<and> length (requests g) = min (length ([snd (snd e1)] @ map (\<lambda>e. snd (snd e)) es')) 50"
    unfolding g(3) by (rule foldl_pushed_most_recent [OF v most_recent_of_self]) simp
  with assms(5) have "most_recent_of (requests g) (map (\<lambda>e. snd (snd e)) es)"
    "length (requests g) = 50"
    by (simp_all add: es)
  moreover from assms(1) have "I \<notin> set (map tokenId (take (MAX_TOKEN_GROUPS - 1) (tokenGroups st)))"
    by (metis in_set_takeD take_map)
  ultimately show ?thesis
    using g(1,2) by blast
qed

lemma valid_example_request [simp]: "valid_request (example_request t)"
  by (simp add: valid_request_def example_request_def)

lemma time_of_example_request [simp]: "time_of (example_request t) = t"
  by (simp add: time_of_def example_request_def)

lemma entry_id_same_token:
  "e \<in> set (same_token_upserts n) \<Longrightarrow> entry_id H e = generateTokenId H (example_token 100)"
  by (auto simp: same_token_upserts_def entry_id_def)

lemma parse_same_token:
  "e \<in> set (same_token_upserts n) \<Longrightarrow> parseJWT JSON_fragment (fst (snd e)) \<noteq> None"
  by (auto simp: same_token_upserts_def parseJWT_example_token)

lemma valid_same_token:
  "e \<in> set (same_token_upserts n) \<Longrightarrow> valid_request (snd (snd e))"
  by (auto simp: same_token_upserts_def)

lemma length_same_token_upserts [simp]: "length (same_token_upserts n) = n"
  by (simp add: same_token_upserts_def)

theorem C7_request_cap_witness:
  "\<forall>H. generateTokenId H (example_token 100) \<notin> set (map tokenId (tokenGroups empty_storage))
     \<and> list_all (\<lambda>e. entry_id H e = generateTokenId H (example_token 100)) (same_token_upserts 60)
     \<and> list_all (\<lambda>e. parseJWT JSON_fragment (fst (snd e)) \<noteq> None) (same_token_upserts 60)
     \<and> list_all (\<lambda>e. valid_request (snd (snd e))) (same_token_upserts 60)
     \<and> 50 \<le> length (same_token_upserts 60)
     \<and> (\<exists>g rest. tokenGroups (upserts H JSON_fragment (same_token_upserts 60) empty_storage) = g # rest
           \<and> tokenId g = generateTokenId H (example_token 100)
           \<and> generateTokenId H (example_token 100) \<notin> set (map tokenId rest)
           \<and> length (requests g) = 50
           \<and> most_recent_of (requests g) (map (\<lambda>e. snd (snd e)) (same_token_upserts 60)))"
proof
  fix H :: "8 word list \<Rightarrow> 8 word list"
  let ?I = "generateTokenId H (example_token 100)"
  have a1: "?I \<notin> set (map tokenId (tokenGroups empty_storage))"
    by (simp add: empty_storage_def)
  have a2: "\<forall>e \<in> set (same_token_upserts 60). entry_id H e = ?I"
    by (intro ballI entry_id_same_token)
  have a3: "\<forall>e \<in> set (same_token_upserts 60). parseJWT JSON_fragment (fst (snd e)) \<noteq> None"
    by (intro ballI parse_same_token)
  have a4: "\<forall>e \<in> set (same_token_upserts 60). valid_request (snd (snd e))"
    by (intro ballI valid_same_token)
  have a5: "50 \<le> length (same_token_upserts 60)"
    by simp
  note c = C7_request_cap [OF a1 a2 a3 a4 a5]
  from a2 a3 a4 have
    "list_all (\<lambda>e. entry_id H e = ?I) (same_token_upserts 60)"
    "list_all (\<lambda>e. parseJWT JSON_fragment (fst (snd e)) \<noteq> None) (same_token_upserts 60)"
    "list_all (\<lambda>e. valid_request (snd (snd e))) (same_token_upserts 60)"
    by (simp_all only: list_all_iff)
  with a1 a5 c show "?I \<notin> set (map tokenId (tokenGroups empty_storage))
     \<and> list_all (\<lambda>e. entry_id H e = ?I) (same_token_upserts 60)
     \<and> list_all (\<lambda>e. parseJWT JSON_fragment (fst (snd e)) \<noteq> None) (same_token_upserts 60)
     \<and> list_all (\<lambda>e. valid_request (snd (snd e))) (same_token_upserts 60)
     \<and> 50 \<le> length (same_token_upserts 60)
     \<and> (\<exists>g rest. tokenGroups (upserts H JSON_fragment (same_token_upserts 60) empty_storage) = g # rest
           \<and> tokenId g = ?I \<and> ?I \<notin> set (map tokenId rest)
           \<and> length (requests g) = 50
           \<and> most_recent_of (requests g) (map (\<lambda>e. snd (snd e)) (same_token_upserts 60)))"
    by blast
qed

lemma storeTokenData_nth:
  assumes "findIndex (\<lambda>g. tokenId g = generateTokenId H token) (tokenGroups st) = Some i"
    and "length (tokenGroups st) \<le> MAX_TOKEN_GROUPS"
  shows "tokenGroups (storeTokenData H J now token req st) ! i
         = touched J now token req (tokenGroups st ! i)"
    and "length (tokenGroups (storeTokenData H J now token req st)) = length (tokenGroups st)"
    and "\<forall>j. j \<noteq> i \<longrightarrow> tokenGroups (storeTokenData H J now token req st) ! j = tokenGroups st ! j"
  using assms findIndex_Some [OF assms(1)]
  by (simp_all add: storeTokenData_existing)

subsection \<open>C10: the order of the requests of a group\<close>


lemma foldl_pushed_short:
  "length (kept @ rs) \<le> 50 \<Longrightarrow> foldl pushed kept rs = kept @ rs"
proof (induction rs arbitrary: kept)
  case Nil
  then show ?case by simp
next
  case (Cons r rs)
  then have "pushed kept r = kept @ [r]"
    by (intro pushed_short) simp
  with Cons.IH [of "kept @ [r]"] Cons.prems show ?case
    by simp
qed

lemma requests_same_token_upserts:
  "map (\<lambda>e. snd (snd e)) (same_token_upserts n) = map (\<lambda>k. example_request (int k)) [0..<n]"
  by (simp add: same_token_upserts_def comp_def)

lemma same_token_run:
  assumes "0 < n" "n \<le> 50"
  shows "\<exists>g. tokenGroups (upserts H JSON_fragment (same_token_upserts n) empty_storage) = [g]
           \<and> tokenId g = generateTokenId H (example_token 100)
           \<and> requests g = map (\<lambda>k. example_request (int k)) [0..<n]
           \<and> lastSeen g = Date (int (n - 1))"
proof -
  let ?I = "generateTokenId H (example_token 100)"
  from assms(1) obtain e1 es where es: "same_token_upserts n = e1 # es"
    by (cases "same_token_upserts n") (auto simp: same_token_upserts_def)
  have fresh: "?I \<notin> set (map tokenId (tokenGroups empty_storage))"
    by (simp add: empty_storage_def)
  have ids: "\<forall>e \<in> set (e1 # es). entry_id H e = ?I"
    unfolding es [symmetric] by (intro ballI entry_id_same_token)
  have "e1 \<in> set (same_token_upserts n)"
    by (simp add: es)
  then have dec: "parseJWT JSON_fragment (fst (snd e1)) \<noteq> None"
    by (rule parse_same_token)
  from upserts_fresh_same [OF fresh ids dec]
  obtain g where g: "tokenGroups (upserts H JSON_fragment (e1 # es) empty_storage) = [g]"
    "tokenId g = ?I"
    "requests g = foldl pushed [snd (snd e1)] (map (\<lambda>e. snd (snd e)) es)"
    "lastSeen g = timestamp (snd (snd (last (e1 # es))))"
    by (auto simp: empty_storage_def)
  have "length ([snd (snd e1)] @ map (\<lambda>e. snd (snd e)) es) \<le> 50"
    using assms(2) length_same_token_upserts [of n] unfolding es by simp
  from foldl_pushed_short [OF this]
  have "requests g = map (\<lambda>e. snd (snd e)) (e1 # es)"
    by (simp add: g(3))
  then have r: "requests g = map (\<lambda>k. example_request (int k)) [0..<n]"
    by (simp only: es [symmetric] requests_same_token_upserts)
  have "last (same_token_upserts n) = (int (n - 1), example_token 100, example_request (int (n - 1)))"
    using assms(1) by (cases n) (simp_all add: same_token_upserts_def)
  then have "lastSeen g = Date (int (n - 1))"
    by (simp add: g(4) es [symmetric] example_request_def)
  with g(1,2) r show ?thesis
    unfolding es by blast
qed

lemma ascending_example_requests:
  "sorted_wrt (\<lambda>a b. time_of a < time_of b) (map (\<lambda>k. example_request (int k)) [i..<j])"
  by (simp add: sorted_wrt_map sorted_wrt_iff_nth_less)


lemma set_pushed: "set (pushed rs r) \<subseteq> set (rs @ [r])"
  using set_take_subset [of 50 "sort_js newest_first (rs @ [r])"]
  by (auto simp: pushed_def set_sort_js)

lemma pushed_newest_kept:
  assumes "\<forall>x \<in> set rs. valid_request x \<and> time_of x \<le> time_of r" "valid_request r"
  shows "\<exists>x \<in> set (pushed rs r). time_of x = time_of r"
proof (cases "length rs < 50")
  case True
  then show ?thesis by (simp add: pushed_short)
next
  case False
  define S where "S = sort_js newest_first (rs @ [r])"
  have p: "pushed rs r = take 50 S"
    using False by (simp add: pushed_full S_def)
  have v: "\<forall>x \<in> set (rs @ [r]). valid_request x"
    using assms by auto
  have s: "newest_first_sorted S"
    unfolding S_def by (rule sorted_sort_js [OF v])
  have ne: "S \<noteq> []"
    by (metis S_def length_sort_js length_0_conv snoc_eq_iff_butlast)
  then obtain h t where S: "S = h # t"
    by (cases S) auto
  have "r \<in> set S"
    by (simp add: S_def set_sort_js)
  with s S have "time_of r \<le> time_of h"
    by (auto simp: newest_first_sorted_def)
  moreover have "h \<in> set (rs @ [r])"
    by (metis S S_def list.set_intros(1) set_sort_js)
  with assms(1) have "time_of h \<le> time_of r"
    by auto
  ultimately have "time_of h = time_of r"
    by simp
  moreover have "h \<in> set (take 50 S)"
    by (simp add: S)
  ultimately show ?thesis
    unfolding p by blast
qed

subsection \<open>C8: the instants of a group\<close>

text \<open>
  C8, amended. After an upsert on an existing group (the store within its cap)
  \<open>lastSeen\<close> is the instant of the request just appended and \<open>firstSeen\<close> is unchanged;
  when that instant is valid and no earlier request of the group is more recent,
  \<open>lastSeen\<close> is the maximum of the instants of the requests the group holds. A group
  that an upsert creates holds the one request, and its \<open>firstSeen\<close> and \<open>lastSeen\<close> are
  both the instant of that request.
\<close>

theorem C8_lastSeen:
  "(findIndex (\<lambda>g. tokenId g = generateTokenId H token) (tokenGroups st) = Some i
      \<and> length (tokenGroups st) \<le> MAX_TOKEN_GROUPS \<longrightarrow>
        lastSeen (tokenGroups (storeTokenData H J now token req st) ! i) = timestamp req
        \<and> firstSeen (tokenGroups (storeTokenData H J now token req st) ! i)
            = firstSeen (tokenGroups st ! i)
        \<and> ((\<forall>x \<in> set (requests (tokenGroups st ! i)). valid_request x \<and> time_of x \<le> time_of req)
             \<and> valid_request req \<longrightarrow>
              (\<forall>x \<in> set (requests (tokenGroups (storeTokenData H J now token req st) ! i)).
                  time_of x \<le> time_of req)
              \<and> (\<exists>x \<in> set (requests (tokenGroups (storeTokenData H J now token req st) ! i)).
                  time_of x = time_of req)))
   \<and> (findIndex (\<lambda>g. tokenId g = generateTokenId H token) (tokenGroups st) = None
      \<and> parseJWT J token \<noteq> None \<longrightarrow>
        (\<exists>g rest. tokenGroups (storeTokenData H J now token req st) = g # rest
           \<and> tokenId g = generateTokenId H token
           \<and> requests g = [req]
           \<and> firstSeen g = timestamp req
           \<and> lastSeen g = timestamp req))"
proof (intro conjI impI)
  assume a: "findIndex (\<lambda>g. tokenId g = generateTokenId H token) (tokenGroups st) = Some i
      \<and> length (tokenGroups st) \<le> MAX_TOKEN_GROUPS"
  then have n: "tokenGroups (storeTokenData H J now token req st) ! i
         = touched J now token req (tokenGroups st ! i)"
    by (intro storeTokenData_nth(1)) blast+
  show "lastSeen (tokenGroups (storeTokenData H J now token req st) ! i) = timestamp req"
    and "firstSeen (tokenGroups (storeTokenData H J now token req st) ! i)
            = firstSeen (tokenGroups st ! i)"
    by (simp_all add: n)
  assume b: "(\<forall>x \<in> set (requests (tokenGroups st ! i)). valid_request x \<and> time_of x \<le> time_of req)
             \<and> valid_request req"
  show "\<forall>x \<in> set (requests (tokenGroups (storeTokenData H J now token req st) ! i)).
                  time_of x \<le> time_of req"
    using b set_pushed [of "requests (tokenGroups st ! i)" req] by (auto simp: n)
  show "\<exists>x \<in> set (requests (tokenGroups (storeTokenData H J now token req st) ! i)).
                  time_of x = time_of req"
    using b by (simp add: n pushed_newest_kept)
next
  assume a: "findIndex (\<lambda>g. tokenId g = generateTokenId H token) (tokenGroups st) = None
      \<and> parseJWT J token \<noteq> None"
  then obtain parsed where "parseJWT J token = Some parsed" by auto
  from createTokenGroup_Some [OF this, of H now req]
  obtain ng where ng: "createTokenGroup H J now token req = Some ng"
    "tokenId ng = generateTokenId H token" "requests ng = [req]"
    "firstSeen ng = timestamp req" "lastSeen ng = timestamp req"
    by blast
  from a have "tokenGroups (storeTokenData H J now token req st)
      = ng # take (MAX_TOKEN_GROUPS - 1) (tokenGroups st)"
    by (simp add: storeTokenData_new [OF _ ng(1)] MAX_TOKEN_GROUPS_def)
  with ng show "\<exists>g rest. tokenGroups (storeTokenData H J now token req st) = g # rest
           \<and> tokenId g = generateTokenId H token
           \<and> requests g = [req]
           \<and> firstSeen g = timestamp req
           \<and> lastSeen g = timestamp req"
    by blast
qed

text \<open>
  C8. As stated the claim fails: \<open>storeTokenData\<close> assigns the instant of the new
  request to \<open>lastSeen\<close> and takes no maximum. After a request observed at \<open>2000\<close> and
  then, for the same token, one observed at \<open>1000\<close>, the group holds both requests and
  its \<open>lastSeen\<close> is \<open>1000\<close>.
\<close>

theorem C8_lastSeen_not_maximum:
  "\<forall>H. (\<exists>g. tokenGroups (upserts H JSON_fragment
                [(2000, example_token 100, example_request 2000),
                 (2001, example_token 100, example_request 1000)] empty_storage) = [g]
            \<and> requests g = [example_request 2000, example_request 1000]
            \<and> lastSeen g = Date 1000
            \<and> time_of (example_request 2000) = 2000)"
proof
  fix H :: "8 word list \<Rightarrow> 8 word list"
  let ?I = "generateTokenId H (example_token 100)"
  let ?e1 = "(2000 :: int, example_token 100, example_request 2000)"
  let ?e2 = "(2001 :: int, example_token 100, example_request 1000)"
  have fresh: "?I \<notin> set (map tokenId (tokenGroups empty_storage))"
    by (simp add: empty_storage_def)
  have ids: "\<forall>e \<in> set [?e1, ?e2]. entry_id H e = ?I"
    by (simp add: entry_id_def)
  have dec: "parseJWT JSON_fragment (fst (snd ?e1)) \<noteq> None"
    by (simp add: parseJWT_example_token)
  from upserts_fresh_same [OF fresh ids dec]
  obtain g where g: "tokenGroups (upserts H JSON_fragment [?e1, ?e2] empty_storage) = [g]"
    "requests g = foldl pushed [example_request 2000] [example_request 1000]"
    "lastSeen g = timestamp (example_request 1000)"
    by (auto simp: empty_storage_def)
  have "requests g = [example_request 2000, example_request 1000]"
    by (simp add: g(2) pushed_short)
  moreover have "lastSeen g = Date 1000"
    by (simp add: g(3) example_request_def)
  ultimately show "\<exists>g. tokenGroups (upserts H JSON_fragment [?e1, ?e2] empty_storage) = [g]
            \<and> requests g = [example_request 2000, example_request 1000]
            \<and> lastSeen g = Date 1000
            \<and> time_of (example_request 2000) = 2000"
    using g(1) by simp
qed

lemma char_49: "(char_of (49 :: nat) :: char) = CHR ''1''"
  by code_simp

lemma char_48: "(char_of (48 :: nat) :: char) = CHR ''0''"
  by code_simp

lemma digits3_100: "digits3 100 = ''100''"
proof -
  have "(100 :: nat) div 100 mod 10 = 1" "(100 :: nat) div 10 mod 10 = 0" "(100 :: nat) mod 10 = 0"
    by simp_all
  then have "digits3 100 = [char_of (48 + 1 :: nat), char_of (48 + 0 :: nat), char_of (48 + 0 :: nat)]"
    by (simp only: digits3_def)
  also have "\<dots> = [char_of (49 :: nat), char_of (48 :: nat), char_of (48 :: nat)]"
    by (simp only: add_0_right) (simp only: numeral_plus_one semiring_norm)
  finally show ?thesis
    by (simp only: char_49 char_48)
qed

lemma example_token_100: "example_token 100 = ''e30.e30.100''"
  by (simp add: example_token_def digits3_100)

theorem C8_lastSeen_witness:
  "\<forall>H. (\<exists>g. tokenGroups (upserts H JSON_fragment (same_token_upserts 1) empty_storage) = [g]
            \<and> requests g = [example_request 0] \<and> firstSeen g = Date 0)
     \<and> findIndex (\<lambda>g. tokenId g = generateTokenId H ''e30.e30.100'')
           (tokenGroups (upserts H JSON_fragment (same_token_upserts 1) empty_storage)) = Some 0
     \<and> length (tokenGroups (upserts H JSON_fragment (same_token_upserts 1) empty_storage))
           \<le> MAX_TOKEN_GROUPS
     \<and> list_all (\<lambda>x. valid_request x \<and> time_of x \<le> time_of (example_request 5)) [example_request 0]
     \<and> valid_request (example_request 5)
     \<and> lastSeen (tokenGroups (storeTokenData H JSON_fragment 5 ''e30.e30.100'' (example_request 5)
           (upserts H JSON_fragment (same_token_upserts 1) empty_storage)) ! 0) = Date 5
     \<and> firstSeen (tokenGroups (storeTokenData H JSON_fragment 5 ''e30.e30.100'' (example_request 5)
           (upserts H JSON_fragment (same_token_upserts 1) empty_storage)) ! 0) = Date 0
     \<and> list_all (\<lambda>x. time_of x \<le> 5)
           (requests (tokenGroups (storeTokenData H JSON_fragment 5 ''e30.e30.100'' (example_request 5)
             (upserts H JSON_fragment (same_token_upserts 1) empty_storage)) ! 0))
     \<and> findIndex (\<lambda>g. tokenId g = generateTokenId H ''e30.e30.100'') (tokenGroups empty_storage) = None
     \<and> parseJWT JSON_fragment ''e30.e30.100'' \<noteq> None
     \<and> (\<exists>g rest. tokenGroups (storeTokenData H JSON_fragment 0 ''e30.e30.100'' (example_request 0)
                      empty_storage) = g # rest
           \<and> requests g = [example_request 0] \<and> firstSeen g = Date 0 \<and> lastSeen g = Date 0)"
proof
  fix H :: "8 word list \<Rightarrow> 8 word list"
  let ?tok = "''e30.e30.100''"
  let ?I = "generateTokenId H ?tok"
  let ?st1 = "upserts H JSON_fragment (same_token_upserts 1) empty_storage"
  have one: "same_token_upserts 1 = [(0, example_token 100, example_request 0)]"
    by (simp add: same_token_upserts_def)
  have fresh: "generateTokenId H (example_token 100) \<notin> set (map tokenId (tokenGroups empty_storage))"
    by (simp add: empty_storage_def)
  have ids: "\<forall>e \<in> set [(0 :: int, example_token 100, example_request 0)].
      entry_id H e = generateTokenId H (example_token 100)"
    by (simp add: entry_id_def)
  have dec: "parseJWT JSON_fragment (fst (snd (0 :: int, example_token 100, example_request 0))) \<noteq> None"
    by (simp add: parseJWT_example_token)
  from upserts_fresh_same [OF fresh ids dec]
  obtain g where g: "tokenGroups ?st1 = [g]" "tokenId g = ?I"
    "requests g = [example_request 0]" "firstSeen g = Date 0"
    unfolding one by (auto simp: empty_storage_def example_token_100 example_request_def)
  have f: "findIndex (\<lambda>g. tokenId g = ?I) (tokenGroups ?st1) = Some 0"
    unfolding g(1) by (simp add: g(2))
  have l: "length (tokenGroups ?st1) \<le> MAX_TOKEN_GROUPS"
    unfolding g(1) by (simp add: MAX_TOKEN_GROUPS_def)
  have r: "requests (tokenGroups ?st1 ! 0) = [example_request 0]"
    and fs: "firstSeen (tokenGroups ?st1 ! 0) = Date 0"
    unfolding g(1) by (simp_all add: g(3,4))
  have h: "\<forall>x \<in> set (requests (tokenGroups ?st1 ! 0)).
      valid_request x \<and> time_of x \<le> time_of (example_request 5)"
    unfolding r by simp
  have v: "valid_request (example_request 5)"
    by simp
  note ex = C8_lastSeen [of H ?tok ?st1 0 JSON_fragment 5 "example_request 5"]
  from ex f l h v
  have e1: "lastSeen (tokenGroups (storeTokenData H JSON_fragment 5 ?tok (example_request 5) ?st1) ! 0)
        = timestamp (example_request 5)"
    and e2: "firstSeen (tokenGroups (storeTokenData H JSON_fragment 5 ?tok (example_request 5) ?st1) ! 0)
        = firstSeen (tokenGroups ?st1 ! 0)"
    and e3: "\<forall>x \<in> set (requests (tokenGroups (storeTokenData H JSON_fragment 5 ?tok (example_request 5) ?st1) ! 0)).
        time_of x \<le> time_of (example_request 5)"
    by blast+
  from e1 have w1: "lastSeen (tokenGroups (storeTokenData H JSON_fragment 5 ?tok (example_request 5) ?st1) ! 0) = Date 5"
    by (simp add: example_request_def)
  from e2 fs have w2: "firstSeen (tokenGroups (storeTokenData H JSON_fragment 5 ?tok (example_request 5) ?st1) ! 0) = Date 0"
    by simp
  from e3 have w3: "list_all (\<lambda>x. time_of x \<le> 5)
      (requests (tokenGroups (storeTokenData H JSON_fragment 5 ?tok (example_request 5) ?st1) ! 0))"
    by (simp add: list_all_iff)
  have n: "findIndex (\<lambda>g. tokenId g = ?I) (tokenGroups empty_storage) = None"
    by (simp add: empty_storage_def)
  have p: "parseJWT JSON_fragment ?tok \<noteq> None"
    using parseJWT_example_token [of 100] by (simp add: example_token_100)
  from C8_lastSeen [of H ?tok empty_storage 0 JSON_fragment 0 "example_request 0"] n p
  obtain g0 rest where "tokenGroups (storeTokenData H JSON_fragment 0 ?tok (example_request 0) empty_storage) = g0 # rest"
    "requests g0 = [example_request 0]" "firstSeen g0 = timestamp (example_request 0)"
    "lastSeen g0 = timestamp (example_request 0)"
    by blast
  then have w4: "\<exists>g rest. tokenGroups (storeTokenData H JSON_fragment 0 ?tok (example_request 0)
                      empty_storage) = g # rest
           \<and> requests g = [example_request 0] \<and> firstSeen g = Date 0 \<and> lastSeen g = Date 0"
    by (simp add: example_request_def)
  have h': "list_all (\<lambda>x. valid_request x \<and> time_of x \<le> time_of (example_request 5)) [example_request 0]"
    by simp
  from g(1,3,4) f l h' v w1 w2 w3 n p w4
  show "(\<exists>g. tokenGroups ?st1 = [g] \<and> requests g = [example_request 0] \<and> firstSeen g = Date 0)
     \<and> findIndex (\<lambda>g. tokenId g = ?I) (tokenGroups ?st1) = Some 0
     \<and> length (tokenGroups ?st1) \<le> MAX_TOKEN_GROUPS
     \<and> list_all (\<lambda>x. valid_request x \<and> time_of x \<le> time_of (example_request 5)) [example_request 0]
     \<and> valid_request (example_request 5)
     \<and> lastSeen (tokenGroups (storeTokenData H JSON_fragment 5 ?tok (example_request 5) ?st1) ! 0) = Date 5
     \<and> firstSeen (tokenGroups (storeTokenData H JSON_fragment 5 ?tok (example_request 5) ?st1) ! 0) = Date 0
     \<and> list_all (\<lambda>x. time_of x \<le> 5)
           (requests (tokenGroups (storeTokenData H JSON_fragment 5 ?tok (example_request 5) ?st1) ! 0))
     \<and> findIndex (\<lambda>g. tokenId g = ?I) (tokenGroups empty_storage) = None
     \<and> parseJWT JSON_fragment ?tok \<noteq> None
     \<and> (\<exists>g rest. tokenGroups (storeTokenData H JSON_fragment 0 ?tok (example_request 0)
                      empty_storage) = g # rest
           \<and> requests g = [example_request 0] \<and> firstSeen g = Date 0 \<and> lastSeen g = Date 0)"
    by blast
qed

subsection \<open>C4: an upsert whose token does not decode\<close>

text \<open>
  A token that does not decode and whose identity no group of the store has leaves the
  store (within its cap) as it was.
\<close>

lemma storeTokenData_undecodable_unknown:
  assumes "parseJWT J token = None"
    and "generateTokenId H token \<notin> set (map tokenId (tokenGroups st))"
    and "length (tokenGroups st) \<le> MAX_TOKEN_GROUPS"
  shows "storeTokenData H J now token req st = st"
proof -
  from assms(2) have "\<forall>g \<in> set (tokenGroups st). tokenId g \<noteq> generateTokenId H token"
    by (metis image_eqI set_map)
  then have f: "findIndex (\<lambda>g. tokenId g = generateTokenId H token) (tokenGroups st) = None"
    by (simp add: findIndex_None_iff)
  from storeTokenData_dropped [OF f assms(1)] assms(3) show ?thesis
    by simp
qed

lemma decode_bang: "base64UrlDecode ''!'' = None"
  by (rule base64UrlDecode_bad_char [of "CHR ''!''"])
     (simp_all add: ascii_whitespace_def urlsafe_char_def b64_value_def)

text \<open>
  C4. The code breaks the claim where the identity of the token is that of a group.
  The identity leaves the header out, so \<open>!.e30.100\<close>, whose header is not base64, has
  the identity of \<open>e30.e30.100\<close>. \<open>storeTokenData\<close> appends the request and sets
  \<open>lastSeen\<close> before it decodes the token, and only the update of \<open>isExpired\<close> waits for
  the decoding: for every digest, parser and clock, the upsert of \<open>!.e30.100\<close> on the
  store that holds the group of \<open>e30.e30.100\<close> adds the request to that group.
\<close>

theorem C4_undecodable_token_recorded:
  "\<forall>H J now.
     parseJWT J ''!.e30.100'' = None
     \<and> (\<exists>g. tokenGroups (upserts H JSON_fragment [(0, ''e30.e30.100'', example_request 0)]
                empty_storage) = [g]
          \<and> requests g = [example_request 0] \<and> lastSeen g = Date 0)
     \<and> (\<exists>g. tokenGroups (storeTokenData H J now ''!.e30.100'' (example_request 7)
                (upserts H JSON_fragment [(0, ''e30.e30.100'', example_request 0)] empty_storage)) = [g]
          \<and> requests g = [example_request 0, example_request 7] \<and> lastSeen g = Date 7)"
proof (intro allI)
  fix H :: "8 word list \<Rightarrow> 8 word list" and J :: "string \<Rightarrow> json option" and now :: int
  let ?tok = "''e30.e30.100''"
  let ?bad = "''!.e30.100''"
  let ?st1 = "upserts H JSON_fragment [(0, ?tok, example_request 0)] empty_storage"
  have sb: "js_split CHR ''.'' ?bad = [''!'', ''e30'', ''100'']"
    and st: "js_split CHR ''.'' ?tok = [''e30'', ''e30'', ''100'']"
    by simp_all
  have bad: "parseJWT J ?bad = None"
    by (simp add: parseJWT_parts [OF sb] decode_bang)
  have same: "generateTokenId H ?bad = generateTokenId H ?tok"
    by (simp add: generateTokenId_parts [OF sb] generateTokenId_parts [OF st])
  have fresh: "generateTokenId H ?tok \<notin> set (map tokenId (tokenGroups empty_storage))"
    by (simp add: empty_storage_def)
  have ids: "\<forall>e \<in> set [(0 :: int, ?tok, example_request 0)]. entry_id H e = generateTokenId H ?tok"
    by (simp add: entry_id_def)
  have dec: "parseJWT JSON_fragment (fst (snd (0 :: int, ?tok, example_request 0))) \<noteq> None"
    using parseJWT_example_token [of 100] by (simp add: example_token_100)
  from upserts_fresh_same [OF fresh ids dec]
  obtain g where g: "tokenGroups ?st1 = [g]" "tokenId g = generateTokenId H ?tok"
    "requests g = [example_request 0]" "lastSeen g = Date 0"
    by (auto simp: empty_storage_def example_request_def)
  have l: "length (tokenGroups ?st1) \<le> MAX_TOKEN_GROUPS"
    unfolding g(1) by (simp add: MAX_TOKEN_GROUPS_def)
  have "tokenGroups (storeTokenData H J now ?bad (example_request 7) ?st1)
      = [touched J now ?bad (example_request 7) g]"
    by (rule storeTokenData_head [OF g(1) _ l]) (simp add: g(2) same)
  moreover have "requests (touched J now ?bad (example_request 7) g) = [example_request 0, example_request 7]"
    by (simp add: g(3) pushed_short)
  moreover have "lastSeen (touched J now ?bad (example_request 7) g) = Date 7"
    by (simp add: example_request_def)
  ultimately show "parseJWT J ?bad = None
     \<and> (\<exists>g. tokenGroups ?st1 = [g] \<and> requests g = [example_request 0] \<and> lastSeen g = Date 0)
     \<and> (\<exists>g. tokenGroups (storeTokenData H J now ?bad (example_request 7) ?st1) = [g]
          \<and> requests g = [example_request 0, example_request 7] \<and> lastSeen g = Date 7)"
    using bad g by blast
qed

section \<open>The retention sweep\<close>

text \<open>
  The sweep of \<open>background/background.ts\<close> does what C1 says. It keeps the groups that
  are not both without a request inside the window and last seen before the cutoff, in
  their order and with their requests pruned; the expiry of the token has no part in
  the choice, so a group with a request inside the window stays whether or not its
  token has expired.
\<close>

lemma cleanupOldData_groups:
  "tokenGroups (cleanupOldData now st)
     = map (pruned now)
         (filter (\<lambda>g. \<not> (filter (within_window now) (requests g) = [] \<and> idle now g))
            (tokenGroups st))"
  by (simp add: cleanupOldData_def Let_def filter_map comp_def pruned_def [abs_def]
        within_window_def [abs_def] idle_def cutoff_def)

lemma cleanupOldData_evicts_iff:
  assumes "g \<in> set (tokenGroups st)"
  shows "pruned now g \<in> set (tokenGroups (cleanupOldData now st))
         \<longleftrightarrow> \<not> (filter (within_window now) (requests g) = [] \<and> idle now g)"
proof
  assume "pruned now g \<in> set (tokenGroups (cleanupOldData now st))"
  then obtain g' where g': "g' \<in> set (tokenGroups st)" "pruned now g' = pruned now g"
    "\<not> (filter (within_window now) (requests g') = [] \<and> idle now g')"
    by (auto simp: cleanupOldData_groups)
  from g'(2) have "requests (pruned now g') = requests (pruned now g)"
    "lastSeen (pruned now g') = lastSeen (pruned now g)"
    by simp_all
  then have "filter (within_window now) (requests g') = filter (within_window now) (requests g)"
    "idle now g' = idle now g"
    by (simp_all add: pruned_def idle_def)
  with g'(3) show "\<not> (filter (within_window now) (requests g) = [] \<and> idle now g)"
    by simp
next
  assume "\<not> (filter (within_window now) (requests g) = [] \<and> idle now g)"
  with assms show "pruned now g \<in> set (tokenGroups (cleanupOldData now st))"
    by (auto simp: cleanupOldData_groups)
qed

lemma cleanupOldData_keeps_recent:
  assumes "g \<in> set (tokenGroups st)" "r \<in> set (requests g)" "within_window now r"
  shows "pruned now g \<in> set (tokenGroups (cleanupOldData now st))"
proof -
  from assms(2,3) have "filter (within_window now) (requests g) \<noteq> []"
    by (auto simp: filter_empty_conv)
  with cleanupOldData_evicts_iff [OF assms(1)] show ?thesis
    by simp
qed

lemma expiredMoreThanAnHour_update [simp]:
  "expiredMoreThanAnHour now (g\<lparr>isExpired := a, requests := b\<rparr>) = expiredMoreThanAnHour now g"
  by (simp add: expiredMoreThanAnHour_def)

lemma cleanupOldData_2_groups:
  "tokenGroups (cleanupOldData_2 now st)
     = map (\<lambda>g. g\<lparr>isExpired := isTokenExpired now (payload g),
                   requests := filter (\<lambda>req. num_greater (getTime (timestamp req))
                       (Fin (of_int (now - RETENTION_HOURS_2 * 60 * 60 * 1000)))) (requests g)\<rparr>)
         (filter (\<lambda>g. \<not> (isTokenExpired now (payload g) \<and> expiredMoreThanAnHour now g))
            (tokenGroups st))"
  by (simp add: cleanupOldData_2_def Let_def filter_map comp_def)

lemma decode_exp_payload: "base64UrlDecode ''eyJleHAiOjEwMDB9'' = Some ''{\"exp\":1000}''"
  by code_simp

lemma JSON_fragment_exp_payload:
  "JSON_fragment ''{\"exp\":1000}'' = Some (JObject [(''exp'', JNumber (Fin 1000))])"
  by code_simp

lemma parseJWT_expiring_token:
  "parseJWT JSON_fragment expiring_token
     = Some \<lparr>ParsedJWT.header = JObject [],
             ParsedJWT.payload = JObject [(''exp'', JNumber (Fin 1000))],
             ParsedJWT.signature = ''sig''\<rparr>"
proof -
  have s: "js_split CHR ''.'' expiring_token = [''e30'', ''eyJleHAiOjEwMDB9'', ''sig'']"
    by (simp add: expiring_token_def)
  show ?thesis
    by (simp add: parseJWT_parts [OF s] decode_e30 JSON_fragment_empty_object decode_exp_payload
          JSON_fragment_exp_payload)
qed

lemma expiry_of_exp_1000:
  "getExpiryDate (JObject [(''exp'', JNumber (Fin 1000))]) = Some (Date 1000000)"
  by (simp add: getExpiryDate_def new_Date_def getTime_def isNaN_def)

lemma expired_exp_1000: "1000000 < now \<Longrightarrow> isTokenExpired now (JObject [(''exp'', JNumber (Fin 1000))])"
  by (simp add: isTokenExpired_def expiry_of_exp_1000 getTime_def)

lemma expiring_group:
  "\<exists>g. tokenGroups (storeTokenData H JSON_fragment 8140000 expiring_token
            (example_request 8140000) empty_storage) = [g]
       \<and> payload g = JObject [(''exp'', JNumber (Fin 1000))]
       \<and> expiryDate g = Some (Date 1000000)
       \<and> isExpired g
       \<and> requests g = [example_request 8140000]
       \<and> lastSeen g = Date 8140000"
proof -
  have f: "findIndex (\<lambda>g. tokenId g = generateTokenId H expiring_token) (tokenGroups empty_storage) = None"
    by (simp add: empty_storage_def)
  from createTokenGroup_Some [OF parseJWT_expiring_token, of H 8140000 "example_request 8140000"]
  obtain ng where ng: "createTokenGroup H JSON_fragment 8140000 expiring_token (example_request 8140000) = Some ng"
    "requests ng = [example_request 8140000]" "lastSeen ng = timestamp (example_request 8140000)"
    "payload ng = JObject [(''exp'', JNumber (Fin 1000))]"
    "expiryDate ng = getExpiryDate (JObject [(''exp'', JNumber (Fin 1000))])"
    "isExpired ng = isTokenExpired 8140000 (JObject [(''exp'', JNumber (Fin 1000))])"
    by auto
  have "tokenGroups (storeTokenData H JSON_fragment 8140000 expiring_token
            (example_request 8140000) empty_storage) = [ng]"
    unfolding storeTokenData_new [OF f ng(1)]
    by (simp add: empty_storage_def MAX_TOKEN_GROUPS_def)
  moreover have "expiryDate ng = Some (Date 1000000)" "isExpired ng" "lastSeen ng = Date 8140000"
    by (simp_all add: ng expiry_of_exp_1000 expired_exp_1000 example_request_def)
  ultimately show ?thesis
    using ng(2,4) by blast
qed

subsection \<open>C1: eviction and expiry\<close>



section \<open>Reading a blob with malformed instants\<close>

text \<open>
  The popup's reader does what C9 says: whatever was stored, no group it returns has an
  invalid date in its expiry, its \<open>firstSeen\<close>, its \<open>lastSeen\<close> or the instant of a
  request. What \<open>parseDate\<close> cannot read becomes an absent expiry, and the current
  instant everywhere else.
\<close>

lemma new_Date_NaN [simp]: "new_Date NaN = Invalid_Date"
  by (simp add: new_Date_def)

lemma parseDate_valid: "parseDate P v \<noteq> Some Invalid_Date"
  by (auto simp: parseDate_def Let_def isNaN_def getTime_def split: Date.splits)

lemma parseDate_or_now_valid: "parseDate_or_now P now v \<noteq> Invalid_Date"
  using parseDate_valid [of P v]
  by (auto simp: parseDate_or_now_def split: option.splits)

lemma parseDate_unparseable:
  "\<not> truthy_sval v \<or> new_Date_of P v = Invalid_Date \<Longrightarrow>
   parseDate P v = None \<and> parseDate_or_now P now v = Date now"
  by (auto simp: parseDate_def parseDate_or_now_def Let_def isNaN_def getTime_def)

lemma popup_getStorage_defensive:
  assumes "g \<in> set (tokenGroups (popup_getStorage P now data))"
  shows "expiryDate g \<noteq> Some Invalid_Date \<and> firstSeen g \<noteq> Invalid_Date
         \<and> lastSeen g \<noteq> Invalid_Date
         \<and> (\<forall>r \<in> set (requests g). timestamp r \<noteq> Invalid_Date)"
proof (cases data)
  case None
  with assms show ?thesis by (simp add: popup_getStorage_def)
next
  case (Some d)
  with assms show ?thesis
    by (auto simp: popup_getStorage_def Let_def parseDate_valid parseDate_or_now_valid)
qed

subsection \<open>C9: the reader of the background worker\<close>

text \<open>
  C9. \<open>getStorage\<close> of the background worker, the reader that the upsert and the sweep
  use, breaks the claim. It wraps each stored value in \<open>new Date\<close> and checks nothing:
  an expiry it cannot read becomes an invalid date, not an absent one, and a
  \<open>firstSeen\<close>, a \<open>lastSeen\<close> or a request instant it cannot read becomes an invalid
  date, not the current instant. On the malformed blob, with a \<open>Date.parse\<close> that reads
  neither text, all four instants are invalid, where the popup's reader returns no
  expiry and the current instant three times. No exception is raised; but the sweep
  then never evicts the group, since an invalid \<open>lastSeen\<close> is not before any cutoff.
\<close>

theorem C9_background_reader_keeps_invalid_dates:
  "\<forall>P now.
     (\<exists>g. tokenGroups (getStorage P (Some malformed_snapshot)) = [g]
          \<and> expiryDate g = Some (new_Date (P ''soon''))
          \<and> firstSeen g = Invalid_Date
          \<and> lastSeen g = Invalid_Date
          \<and> map timestamp (requests g) = [new_Date (P ''yesterday'')])
     \<and> (\<exists>g. tokenGroups (getStorage (\<lambda>text. NaN) (Some malformed_snapshot)) = [g]
          \<and> expiryDate g = Some Invalid_Date
          \<and> firstSeen g = Invalid_Date
          \<and> lastSeen g = Invalid_Date
          \<and> map timestamp (requests g) = [Invalid_Date])
     \<and> (\<exists>g. tokenGroups (popup_getStorage (\<lambda>text. NaN) now (Some malformed_snapshot)) = [g]
          \<and> expiryDate g = None
          \<and> firstSeen g = Date now
          \<and> lastSeen g = Date now
          \<and> map timestamp (requests g) = [Date now])
     \<and> length (tokenGroups (cleanupOldData now
           (getStorage (\<lambda>text. NaN) (Some malformed_snapshot)))) = 1"
proof (intro allI conjI)
  fix P :: "string \<Rightarrow> number" and now :: int
  have big: "new_Date (Fin 100000000000000000000) = Invalid_Date"
    by (simp add: new_Date_def)
  show "\<exists>g. tokenGroups (getStorage P (Some malformed_snapshot)) = [g]
          \<and> expiryDate g = Some (new_Date (P ''soon''))
          \<and> firstSeen g = Invalid_Date
          \<and> lastSeen g = Invalid_Date
          \<and> map timestamp (requests g) = [new_Date (P ''yesterday'')]"
    by (simp add: getStorage_def malformed_snapshot_def malformed_group_def big)
  show "\<exists>g. tokenGroups (getStorage (\<lambda>text. NaN) (Some malformed_snapshot)) = [g]
          \<and> expiryDate g = Some Invalid_Date
          \<and> firstSeen g = Invalid_Date
          \<and> lastSeen g = Invalid_Date
          \<and> map timestamp (requests g) = [Invalid_Date]"
    by (simp add: getStorage_def malformed_snapshot_def malformed_group_def big)
  show "\<exists>g. tokenGroups (popup_getStorage (\<lambda>text. NaN) now (Some malformed_snapshot)) = [g]
          \<and> expiryDate g = None
          \<and> firstSeen g = Date now
          \<and> lastSeen g = Date now
          \<and> map timestamp (requests g) = [Date now]"
    by (simp add: popup_getStorage_def malformed_snapshot_def malformed_group_def big
          parseDate_def parseDate_or_now_def isNaN_def getTime_def Let_def)
  show "length (tokenGroups (cleanupOldData now
           (getStorage (\<lambda>text. NaN) (Some malformed_snapshot)))) = 1"
    by (simp add: cleanupOldData_groups getStorage_def malformed_snapshot_def malformed_group_def
          big idle_def getTime_def)
qed

text \<open>The same blob read at the instant \<open>8200000\<close>, with a \<open>Date.parse\<close> that reads no text.\<close>

theorem C9_background_reader_keeps_invalid_dates_witness:
  "(\<exists>g. tokenGroups (getStorage (\<lambda>text. NaN) (Some malformed_snapshot)) = [g]
        \<and> expiryDate g = Some Invalid_Date
        \<and> firstSeen g = Invalid_Date
        \<and> lastSeen g = Invalid_Date
        \<and> map timestamp (requests g) = [Invalid_Date])
   \<and> (\<exists>g. tokenGroups (popup_getStorage (\<lambda>text. NaN) 8200000 (Some malformed_snapshot)) = [g]
        \<and> expiryDate g = None
        \<and> firstSeen g = Date 8200000
        \<and> lastSeen g = Date 8200000
        \<and> map timestamp (requests g) = [Date 8200000])
   \<and> length (tokenGroups (cleanupOldData 8200000
         (getStorage (\<lambda>text. NaN) (Some malformed_snapshot)))) = 1"
  using C9_background_reader_keeps_invalid_dates by blast

end
